theory Spec2Isabelle
  imports Main "HOL-Library.Product_Lexorder"
begin

section \<open>Sparse matrices in compressed-row storage\<close>

text \<open>
  The class \<open>SparseMatrix\<close> of \<open>src/sparseMatrix.js\<close> keeps a matrix in three parallel
  arrays: \<open>values\<close>, \<open>col_indices\<close> and \<open>row_ptr\<close>.  The embedding below follows the
  methods of the class one by one.

  Numbers.  JavaScript numbers are doubles.  Every number the class handles is an
  integer (it comes from \<open>parseInt\<close>, from an array length or from integer arithmetic),
  and doubles are exact on integers of magnitude below \<open>2^53\<close>; the embedding uses \<open>nat\<close>
  for dimensions, offsets and stored column indices and \<open>int\<close> for cell values and for
  the indices a caller passes in, and does not model rounding beyond that range.

  Arrays.  Reading a JavaScript array out of range yields \<open>undefined\<close>, and writing out
  of range leaves holes.  Where such a read only feeds a comparison, the comparison is
  false and the model says so with a length guard.  Where the \<open>undefined\<close> (or a \<open>NaN\<close>,
  a hole, a negative offset) would have to be kept as a value, the model stops with
  \<open>Unrepresented\<close>: the source does not throw there, the integer lists used here simply
  cannot hold the value.  No result \<open>Inr\<close> is ever produced along such a path.
\<close>

subsection \<open>Errors\<close>

text \<open>
  The source throws plain \<open>Error\<close> objects that differ in their message.  The messages
  of the parser are kept as \<open>format_problem\<close>; those that start with \<open>Line n:\<close> carry
  the number \<open>n\<close>.
\<close>

datatype format_problem =
    Too_few_lines
  | Invalid_header
  | Nonpositive_dimensions
  | Not_parenthesised
  | Not_three_fields
  | Not_integers
  | Negative_index
  | Out_of_bounds int int

datatype error =
    IndexError
  | DimensionMismatch string
  | FormatError "nat option" format_problem
  | Unrepresented

subsection \<open>The representation and its constructor\<close>

record SparseMatrix =
  rows :: nat
  cols :: nat
  "values" :: "int list"
  col_indices :: "nat list"
  row_ptr :: "nat list"

text \<open>\<open>new SparseMatrix(null, numRows, numCols)\<close>\<close>

definition new_SparseMatrix :: "nat \<Rightarrow> nat \<Rightarrow> SparseMatrix" where
  "new_SparseMatrix numRows numCols =
     \<lparr>rows = numRows, cols = numCols, values = [], col_indices = [],
      row_ptr = (if numRows > 0 then replicate (numRows + 1) 0 else [0])\<rparr>"

subsection \<open>getElement\<close>

text \<open>The \<open>for\<close> loop of \<open>getElement\<close>, from position \<open>i\<close> up to \<open>end\<close>.\<close>

function get_scan :: "SparseMatrix \<Rightarrow> nat \<Rightarrow> nat \<Rightarrow> nat \<Rightarrow> error + int" where
  "get_scan m i end col =
     (if i < end then
        (if i < length (col_indices m) \<and> col_indices m ! i = col then
           (if i < length (values m) then Inr (values m ! i) else Inl Unrepresented)
         else get_scan m (i + 1) end col)
      else Inr 0)"
  by pat_completeness auto
termination
  by (relation "measure (\<lambda>(m, i, end, col). end - i)") auto

declare get_scan.simps [simp del]

text \<open>
  The expression \<open>i + 1 < this.row_ptr.length ? this.row_ptr[i + 1] : this.values.length\<close>
  that every reader of a row uses for its end.
\<close>

definition row_end :: "SparseMatrix \<Rightarrow> nat \<Rightarrow> nat" where
  "row_end m i =
     (if i + 1 < length (row_ptr m) then row_ptr m ! (i + 1) else length (values m))"

text \<open>
  When \<open>row_ptr[row]\<close> is \<open>undefined\<close> the loop condition \<open>i < end\<close> is false at once and
  the method returns 0.
\<close>

definition getElement :: "SparseMatrix \<Rightarrow> int \<Rightarrow> int \<Rightarrow> error + int" where
  "getElement m row col =
     (if row < 0 \<or> row \<ge> int (rows m) \<or> col < 0 \<or> col \<ge> int (cols m) then Inl IndexError
      else if nat row < length (row_ptr m) then
        get_scan m (row_ptr m ! nat row) (row_end m (nat row)) (nat col)
      else Inr 0)"

subsection \<open>setElement\<close>

text \<open>\<open>while (this.row_ptr.length <= row + 1) this.row_ptr.push(last element)\<close>\<close>

function extend_row_ptr :: "nat list \<Rightarrow> nat \<Rightarrow> nat list" where
  "extend_row_ptr rp row =
     (if length rp \<le> row + 1 then extend_row_ptr (rp @ [last rp]) row else rp)"
  by pat_completeness auto
termination
  by (relation "measure (\<lambda>(rp, row). row + 2 - length rp)") auto

declare extend_row_ptr.simps [simp del]

text \<open>
  \<open>while (pos < end && this.col_indices[pos] < col) pos++\<close>; an \<open>undefined\<close> column
  index is not less than \<open>col\<close>.
\<close>

function find_pos :: "nat list \<Rightarrow> nat \<Rightarrow> nat \<Rightarrow> nat \<Rightarrow> nat" where
  "find_pos ci pos end col =
     (if pos < end \<and> pos < length ci \<and> ci ! pos < col then find_pos ci (pos + 1) end col
      else pos)"
  by pat_completeness auto
termination
  by (relation "measure (\<lambda>(ci, pos, end, col). end - pos)") auto

declare find_pos.simps [simp del]

text \<open>\<open>xs.splice(pos, 1)\<close> and \<open>xs.splice(pos, 0, x)\<close> for \<open>pos \<ge> 0\<close>.\<close>

definition splice_del :: "'a list \<Rightarrow> nat \<Rightarrow> 'a list" where
  "splice_del xs pos = take pos xs @ drop (pos + 1) xs"

definition splice_ins :: "'a list \<Rightarrow> nat \<Rightarrow> 'a \<Rightarrow> 'a list" where
  "splice_ins xs pos x = take pos xs @ x # drop pos xs"

text \<open>\<open>for (let i = k; i < rp.length; i++) rp[i] = f(rp[i])\<close>\<close>

definition shift_row_ptr :: "(nat \<Rightarrow> nat) \<Rightarrow> nat \<Rightarrow> nat list \<Rightarrow> nat list" where
  "shift_row_ptr f k rp = fold (\<lambda>i xs. xs[i := f (xs ! i)]) [k..<length rp] rp"

text \<open>
  The decrement \<open>this.row_ptr[i]--\<close> of an offset that is 0 would give \<open>-1\<close>; the model
  stops there, as it does when \<open>this.values[pos] = value\<close> would write past the end of
  \<open>values\<close> and when the padding loop would push the last element of an empty \<open>row_ptr\<close>.
\<close>

definition setElement :: "SparseMatrix \<Rightarrow> int \<Rightarrow> int \<Rightarrow> int \<Rightarrow> error + SparseMatrix" where
  "setElement m row col value =
     (if row < 0 \<or> row \<ge> int (rows m) \<or> col < 0 \<or> col \<ge> int (cols m) then Inl IndexError
      else if row_ptr m = [] then Inl Unrepresented
      else
        let r = nat row; c = nat col;
            rp = extend_row_ptr (row_ptr m) r;
            start = rp ! r;
            end = rp ! (r + 1);
            pos = find_pos (col_indices m) start end c
        in if pos < end \<and> pos < length (col_indices m) \<and> col_indices m ! pos = c then
             (if value = 0 then
                (if \<forall>i \<in> set [r + 1..<length rp]. rp ! i \<noteq> 0 then
                   Inr (m\<lparr>values := splice_del (values m) pos,
                          col_indices := splice_del (col_indices m) pos,
                          row_ptr := shift_row_ptr (\<lambda>x. x - 1) (r + 1) rp\<rparr>)
                 else Inl Unrepresented)
              else if pos < length (values m) then
                Inr (m\<lparr>values := (values m)[pos := value], row_ptr := rp\<rparr>)
              else Inl Unrepresented)
           else if value \<noteq> 0 then
             Inr (m\<lparr>values := splice_ins (values m) pos value,
                    col_indices := splice_ins (col_indices m) pos c,
                    row_ptr := shift_row_ptr (\<lambda>x. x + 1) (r + 1) rp\<rparr>)
           else Inr (m\<lparr>row_ptr := rp\<rparr>))"

subsection \<open>The invariants of the data model\<close>

text \<open>The entries of \<open>xs\<close> at the positions \<open>a, ..., b - 1\<close>.\<close>

definition slice :: "'a list \<Rightarrow> nat \<Rightarrow> nat \<Rightarrow> 'a list" where
  "slice xs a b = take (b - a) (drop a xs)"

definition row_cols :: "SparseMatrix \<Rightarrow> nat \<Rightarrow> nat list" where
  "row_cols m r = slice (col_indices m) (row_ptr m ! r) (row_ptr m ! (r + 1))"

definition row_vals :: "SparseMatrix \<Rightarrow> nat \<Rightarrow> int list" where
  "row_vals m r = slice (values m) (row_ptr m ! r) (row_ptr m ! (r + 1))"

text \<open>I1: every row's column indices increase strictly and lie below \<open>cols\<close>.\<close>

definition I1 :: "SparseMatrix \<Rightarrow> bool" where
  "I1 m \<longleftrightarrow>
     (\<forall>r \<in> set [0..<rows m]. sorted_wrt (<) (row_cols m r) \<and> (\<forall>c \<in> set (row_cols m r). c < cols m))"

text \<open>I2: no stored value is zero.\<close>

definition I2 :: "SparseMatrix \<Rightarrow> bool" where
  "I2 m \<longleftrightarrow> 0 \<notin> set (values m)"

text \<open>
  I3: the row pointer has \<open>rows + 1\<close> entries, does not decrease, and its last entry is
  the common length of \<open>values\<close> and \<open>col_indices\<close>.
\<close>

definition I3 :: "SparseMatrix \<Rightarrow> bool" where
  "I3 m \<longleftrightarrow>
     length (row_ptr m) = rows m + 1 \<and> sorted (row_ptr m) \<and>
     row_ptr m ! rows m = length (values m) \<and> length (col_indices m) = length (values m)"

definition invariants :: "SparseMatrix \<Rightarrow> bool" where
  "invariants m \<longleftrightarrow> I1 m \<and> I2 m \<and> I3 m"

text \<open>The stored entries of a row as (column, value) pairs, and the cell they denote.\<close>

definition row_entries :: "SparseMatrix \<Rightarrow> nat \<Rightarrow> (nat \<times> int) list" where
  "row_entries m r = zip (row_cols m r) (row_vals m r)"

definition cell :: "SparseMatrix \<Rightarrow> nat \<Rightarrow> nat \<Rightarrow> int" where
  "cell m r c = (case map_of (row_entries m r) c of None \<Rightarrow> 0 | Some v \<Rightarrow> v)"

text \<open>
  What \<open>setElement\<close> does to the stored entries of the row it is called on, written
  on the list of (column, value) pairs: walk to the first column not below \<open>c\<close>; there
  delete, overwrite, insert or leave, as the four branches of the method do.
\<close>

fun upd_row :: "nat \<Rightarrow> int \<Rightarrow> (nat \<times> int) list \<Rightarrow> (nat \<times> int) list" where
  "upd_row c v [] = (if v = 0 then [] else [(c, v)])"
| "upd_row c v ((k, w) # ps) =
     (if k < c then (k, w) # upd_row c v ps
      else if k = c then (if v = 0 then ps else (c, v) # ps)
      else if v \<noteq> 0 then (c, v) # (k, w) # ps
      else (k, w) # ps)"

text \<open>The position at which \<open>find_pos\<close> stops in a well-formed row.\<close>

definition ins_pos :: "SparseMatrix \<Rightarrow> nat \<Rightarrow> nat \<Rightarrow> nat" where
  "ins_pos m r c = row_ptr m ! r + length (takeWhile (\<lambda>k. k < c) (row_cols m r))"

text \<open>
  A sequence of \<open>setElement\<close> calls on one matrix, as in the loop
  \<open>for (const [row, col, value] of entries) this.setElement(row, col, value)\<close>;
  the first exception ends it.
\<close>

fun setElements :: "SparseMatrix \<Rightarrow> (int \<times> int \<times> int) list \<Rightarrow> error + SparseMatrix" where
  "setElements m [] = Inr m"
| "setElements m ((row, col, value) # es) =
     (case setElement m row col value of Inl e \<Rightarrow> Inl e | Inr m' \<Rightarrow> setElements m' es)"

subsection \<open>add and subtract\<close>

text \<open>A loop whose body may throw: the first exception ends it.\<close>

fun for_loop :: "('i \<Rightarrow> 's \<Rightarrow> error + 's) \<Rightarrow> 'i list \<Rightarrow> 's \<Rightarrow> error + 's" where
  "for_loop body [] s = Inr s"
| "for_loop body (i # is) s =
     (case body i s of Inl e \<Rightarrow> Inl e | Inr s' \<Rightarrow> for_loop body is s')"

text \<open>
  \<open>add\<close> and \<open>subtract\<close> are the same text up to three expressions: the combination of
  two values in one column (\<open>a + b\<close>, \<open>a - b\<close>) and the value copied from a column
  that only the right operand has (\<open>b\<close>, \<open>-b\<close>).  The model takes these as \<open>comb\<close> and
  \<open>right\<close>.

  The first loop, \<open>while (p1 < selfEnd && p2 < otherEnd)\<close>; it returns the two positions
  and the result matrix.
\<close>

function merge_both ::
  "(int \<Rightarrow> int \<Rightarrow> int) \<Rightarrow> (int \<Rightarrow> int) \<Rightarrow> SparseMatrix \<Rightarrow> SparseMatrix \<Rightarrow> nat \<Rightarrow>
   nat \<Rightarrow> nat \<Rightarrow> nat \<Rightarrow> nat \<Rightarrow> SparseMatrix \<Rightarrow> error + (nat \<times> nat \<times> SparseMatrix)" where
  "merge_both comb right A B i selfEnd otherEnd p1 p2 result =
     (if p1 < selfEnd \<and> p2 < otherEnd then
        (if p1 < length (col_indices A) \<and> p2 < length (col_indices B) then
           (let col1 = col_indices A ! p1; col2 = col_indices B ! p2 in
            if col1 < col2 then
              (if p1 < length (values A) then
                 (case setElement result (int i) (int col1) (values A ! p1) of
                    Inl e \<Rightarrow> Inl e
                  | Inr result' \<Rightarrow>
                      merge_both comb right A B i selfEnd otherEnd (p1 + 1) p2 result')
               else Inl Unrepresented)
            else if col2 < col1 then
              (if p2 < length (values B) then
                 (case setElement result (int i) (int col2) (right (values B ! p2)) of
                    Inl e \<Rightarrow> Inl e
                  | Inr result' \<Rightarrow>
                      merge_both comb right A B i selfEnd otherEnd p1 (p2 + 1) result')
               else Inl Unrepresented)
            else
              (if p1 < length (values A) \<and> p2 < length (values B) then
                 (let v = comb (values A ! p1) (values B ! p2) in
                  if v \<noteq> 0 then
                    (case setElement result (int i) (int col1) v of
                       Inl e \<Rightarrow> Inl e
                     | Inr result' \<Rightarrow>
                         merge_both comb right A B i selfEnd otherEnd (p1 + 1) (p2 + 1) result')
                  else merge_both comb right A B i selfEnd otherEnd (p1 + 1) (p2 + 1) result)
               else Inl Unrepresented))
         else Inl Unrepresented)
      else Inr (p1, p2, result))"
  by pat_completeness auto
termination
  by (relation "measure (\<lambda>(comb, right, A, B, i, selfEnd, otherEnd, p1, p2, result).
                     (selfEnd - p1) + (otherEnd - p2))") auto

declare merge_both.simps [simp del]

text \<open>
  The second and third loop, \<open>while (p < end) { result.setElement(i, M.col_indices[p],
  f(M.values[p])); p++ }\<close>.
\<close>

function copy_rest ::
  "(int \<Rightarrow> int) \<Rightarrow> SparseMatrix \<Rightarrow> nat \<Rightarrow> nat \<Rightarrow> nat \<Rightarrow> SparseMatrix \<Rightarrow> error + SparseMatrix" where
  "copy_rest f M i end p result =
     (if p < end then
        (if p < length (col_indices M) \<and> p < length (values M) then
           (case setElement result (int i) (int (col_indices M ! p)) (f (values M ! p)) of
              Inl e \<Rightarrow> Inl e
            | Inr result' \<Rightarrow> copy_rest f M i end (p + 1) result')
         else Inl Unrepresented)
      else Inr result)"
  by pat_completeness auto
termination
  by (relation "measure (\<lambda>(f, M, i, end, p, result). end - p)") auto

declare copy_rest.simps [simp del]

text \<open>
  The body of \<open>for (let i = 0; i < this.rows; i++)\<close>.  The positions \<open>p1\<close> and \<open>p2\<close>
  start at \<open>row_ptr[i]\<close> of their matrix; an \<open>undefined\<close> there is not represented.
\<close>

definition merge_row ::
  "(int \<Rightarrow> int \<Rightarrow> int) \<Rightarrow> (int \<Rightarrow> int) \<Rightarrow> SparseMatrix \<Rightarrow> SparseMatrix \<Rightarrow> nat \<Rightarrow>
   SparseMatrix \<Rightarrow> error + SparseMatrix" where
  "merge_row comb right A B i result =
     (if i < length (row_ptr A) \<and> i < length (row_ptr B) then
        (let selfStart = row_ptr A ! i; selfEnd = row_end A i;
             otherStart = row_ptr B ! i; otherEnd = row_end B i
         in case merge_both comb right A B i selfEnd otherEnd selfStart otherStart result of
              Inl e \<Rightarrow> Inl e
            | Inr (p1, p2, result1) \<Rightarrow>
                (case copy_rest (\<lambda>v. v) A i selfEnd p1 result1 of
                   Inl e \<Rightarrow> Inl e
                 | Inr result2 \<Rightarrow> copy_rest right B i otherEnd p2 result2))
      else Inl Unrepresented)"

definition add :: "SparseMatrix \<Rightarrow> SparseMatrix \<Rightarrow> error + SparseMatrix" where
  "add A B =
     (if rows A \<noteq> rows B \<or> cols A \<noteq> cols B then
        Inl (DimensionMismatch ''Matrix dimensions must match for addition'')
      else for_loop (merge_row (\<lambda>a b. a + b) (\<lambda>b. b) A B) [0..<rows A]
             (new_SparseMatrix (rows A) (cols A)))"

definition subtract :: "SparseMatrix \<Rightarrow> SparseMatrix \<Rightarrow> error + SparseMatrix" where
  "subtract A B =
     (if rows A \<noteq> rows B \<or> cols A \<noteq> cols B then
        Inl (DimensionMismatch ''Matrix dimensions must match for subtraction'')
      else for_loop (merge_row (\<lambda>a b. a - b) (\<lambda>b. - b) A B) [0..<rows A]
             (new_SparseMatrix (rows A) (cols A)))"

subsection \<open>multiply\<close>

text \<open>
  The scratch row \<open>tempRow\<close> is allocated with \<open>other.cols\<close> zeros and keeps that length:
  the only writes are the reset loop, which stays below \<open>other.cols\<close>, and
  \<open>tempRow[resultCol] += product\<close>, which the model follows only for \<open>resultCol\<close> within
  the row (beyond it the source computes \<open>undefined + product\<close>, a \<open>NaN\<close>).

  The body of \<open>for (let p2 = otherStart; p2 < otherEnd; p2++)\<close>:
\<close>

definition accumulate :: "SparseMatrix \<Rightarrow> int \<Rightarrow> nat \<Rightarrow> int list \<Rightarrow> error + int list" where
  "accumulate B rowVal p2 tempRow =
     (if p2 < length (values B) \<and> p2 < length (col_indices B) \<and>
         col_indices B ! p2 < length tempRow then
        (let product = rowVal * values B ! p2; resultCol = col_indices B ! p2
         in Inr (tempRow[resultCol := tempRow ! resultCol + product]))
      else Inl Unrepresented)"

text \<open>
  The body of \<open>for (let p1 = selfStart; p1 < selfEnd; p1++)\<close>.  When
  \<open>other.row_ptr[colInSelf]\<close> is \<open>undefined\<close> the inner loop does not run.
\<close>

definition spread :: "SparseMatrix \<Rightarrow> SparseMatrix \<Rightarrow> nat \<Rightarrow> int list \<Rightarrow> error + int list" where
  "spread A B p1 tempRow =
     (if p1 < length (values A) \<and> p1 < length (col_indices A) then
        (let rowVal = values A ! p1; colInSelf = col_indices A ! p1 in
         if colInSelf < length (row_ptr B) then
           for_loop (accumulate B rowVal) [row_ptr B ! colInSelf..<row_end B colInSelf] tempRow
         else Inr tempRow)
      else Inl Unrepresented)"

text \<open>\<open>for (let j = 0; j < other.cols; j++) if (tempRow[j] !== 0) nonZeroEntries.push([j, tempRow[j]])\<close>\<close>

definition nonZeroEntries :: "int list \<Rightarrow> nat \<Rightarrow> (nat \<times> int) list" where
  "nonZeroEntries tempRow n =
     fold (\<lambda>j acc. if tempRow ! j \<noteq> 0 then acc @ [(j, tempRow ! j)] else acc) [0..<n] []"

text \<open>
  The body of \<open>for (let i = 0; i < this.rows; i++)\<close>, on the pair of the scratch row and
  the result.  \<open>Array.prototype.sort\<close> with the comparator \<open>a[0] - b[0]\<close> is a stable
  sort by column; \<open>sort_key fst\<close> is one, and the outcome of a stable sort does not
  depend on the algorithm.  The scratch row is allocated with \<open>other.cols\<close> cells and
  never shrinks; on a shorter one the source would grow the array, a state
  \<open>multiply\<close> never reaches and the model does not describe.
\<close>

definition multiply_row ::
  "SparseMatrix \<Rightarrow> SparseMatrix \<Rightarrow> nat \<Rightarrow> int list \<times> SparseMatrix \<Rightarrow>
   error + (int list \<times> SparseMatrix)" where
  "multiply_row A B i state =
     (let (tempRow, result) = state
      in if length tempRow < cols B then Inl Unrepresented
         else
           (let tempRow0 = fold (\<lambda>j t. t[j := 0]) [0..<cols B] tempRow
            in case (if i < length (row_ptr A)
                     then for_loop (spread A B) [row_ptr A ! i..<row_end A i] tempRow0
                     else Inr tempRow0) of
                 Inl e \<Rightarrow> Inl e
               | Inr tempRow1 \<Rightarrow>
                   (let entries = sort_key fst (nonZeroEntries tempRow1 (cols B));
                        result1 = fold (\<lambda>(col, value) m.
                                           m\<lparr>values := values m @ [value],
                                             col_indices := col_indices m @ [col]\<rparr>) entries result;
                        rp = row_ptr result1
                    in if i + 1 < length rp then
                         (let rp1 = rp[i + 1 := rp ! i + length entries];
                              rp2 = fold (\<lambda>k xs. xs[k := xs ! (i + 1)]) [i + 2..<length rp1] rp1
                          in Inr (tempRow1, result1\<lparr>row_ptr := rp2\<rparr>))
                       else Inl Unrepresented)))"

definition multiply :: "SparseMatrix \<Rightarrow> SparseMatrix \<Rightarrow> error + SparseMatrix" where
  "multiply A B =
     (if cols A \<noteq> rows B then
        Inl (DimensionMismatch ''Columns of first matrix must match rows of second matrix'')
      else case for_loop (multiply_row A B) [0..<rows A]
                  (replicate (cols B) 0, new_SparseMatrix (rows A) (cols B)) of
             Inl e \<Rightarrow> Inl e
           | Inr (tempRow, result) \<Rightarrow> Inr result)"

subsection \<open>Strings\<close>

text \<open>
  A text is a list of characters; a character stands for the UTF-16 code unit with the
  same number, so the model covers the texts whose code units are below 256.  The
  white space of \<open>String.prototype.trim\<close> and of the regular expression \<open>\s\<close> in that
  range: tab, line feed, vertical tab, form feed, carriage return, space and the
  no-break space.
\<close>

definition is_space :: "char \<Rightarrow> bool" where
  "is_space c \<longleftrightarrow> (of_char c :: nat) \<in> {9, 10, 11, 12, 13, 32, 160}"

definition is_digit :: "char \<Rightarrow> bool" where
  "is_digit c \<longleftrightarrow> 48 \<le> (of_char c :: nat) \<and> (of_char c :: nat) \<le> 57"

definition trim :: "string \<Rightarrow> string" where
  "trim s = rev (dropWhile is_space (rev (dropWhile is_space s)))"

text \<open>\<open>s.split(sep)\<close> for a separator of one character.\<close>

fun split_on :: "char \<Rightarrow> string \<Rightarrow> string list" where
  "split_on sep [] = [[]]"
| "split_on sep (c # cs) =
     (if c = sep then [] # split_on sep cs
      else (case split_on sep cs of [] \<Rightarrow> [[c]] | l # ls \<Rightarrow> (c # l) # ls))"

text \<open>
  The value of a digit of \<open>parseInt\<close> (letters count from 10), and the digits of a radix.
\<close>

definition digit_value :: "char \<Rightarrow> nat" where
  "digit_value c =
     (let n = (of_char c :: nat) in
      if 48 \<le> n \<and> n \<le> 57 then n - 48
      else if 97 \<le> n \<and> n \<le> 122 then n - 87
      else if 65 \<le> n \<and> n \<le> 90 then n - 55
      else 36)"

definition is_radix_digit :: "nat \<Rightarrow> char \<Rightarrow> bool" where
  "is_radix_digit radix c \<longleftrightarrow> digit_value c < radix"

definition digits_value :: "nat \<Rightarrow> string \<Rightarrow> nat" where
  "digits_value radix z = foldl (\<lambda>acc c. acc * radix + digit_value c) 0 z"

text \<open>
  \<open>parseInt(s)\<close> without a radix: leading white space is skipped, a sign is read, the
  prefix \<open>0x\<close> or \<open>0X\<close> selects radix 16, and the longest run of digits is the value;
  whatever follows is ignored.  \<open>None\<close> is \<open>NaN\<close>.
\<close>

definition parseInt :: "string \<Rightarrow> int option" where
  "parseInt s =
     (let s1 = dropWhile is_space s;
          sign = (if s1 \<noteq> [] \<and> hd s1 = CHR ''-'' then - 1 else 1 :: int);
          s2 = (if s1 \<noteq> [] \<and> (hd s1 = CHR ''+'' \<or> hd s1 = CHR ''-'') then tl s1 else s1);
          hex = (take 2 s2 = ''0x'' \<or> take 2 s2 = ''0X'');
          radix = (if hex then 16 else 10);
          s3 = (if hex then drop 2 s2 else s2);
          z = takeWhile (is_radix_digit radix) s3
      in if z = [] then None else Some (sign * int (digits_value radix z)))"

subsection \<open>loadFromFile\<close>

text \<open>
  \<open>line.match(/rows=(\d+)/i)\<close> and \<open>line.match(/cols=(\d+)/i)\<close>: the leftmost place
  where the key stands, in any case, before at least one digit; the result is the
  longest run of digits there (the capture group), or \<open>None\<close> for \<open>null\<close>.  The key is
  given in lower case.
\<close>

definition lower_ascii :: "char \<Rightarrow> char" where
  "lower_ascii c =
     (let n = (of_char c :: nat) in if 65 \<le> n \<and> n \<le> 90 then char_of (n + 32) else c)"

fun match_header :: "string \<Rightarrow> string \<Rightarrow> string option" where
  "match_header key [] = None"
| "match_header key (c # cs) =
     (if map lower_ascii (take (length key) (c # cs)) = key \<and>
         takeWhile is_digit (drop (length key) (c # cs)) \<noteq> []
      then Some (takeWhile is_digit (drop (length key) (c # cs)))
      else match_header key cs)"

text \<open>
  The body of the loop over the entry lines, in two parts; \<open>n\<close> is the number \<open>i + 1\<close>
  of the messages, where \<open>i\<close> counts the lines that are not blank.  First the three
  numbers are read from the line:
\<close>

definition entry_fields :: "nat \<Rightarrow> string \<Rightarrow> error + (int \<times> int \<times> int)" where
  "entry_fields n text =
     (let line = trim text in
      if \<not> (line \<noteq> [] \<and> hd line = CHR ''('' \<and> last line = CHR '')'') then
        Inl (FormatError (Some n) Not_parenthesised)
      else
        let content = filter (\<lambda>c. \<not> is_space c) (butlast (tl line));
            parts = split_on CHR '','' content
        in if length parts \<noteq> 3 then Inl (FormatError (Some n) Not_three_fields)
           else case (parseInt (parts ! 0), parseInt (parts ! 1), parseInt (parts ! 2)) of
                  (Some row, Some col, Some value) \<Rightarrow> Inr (row, col, value)
                | _ \<Rightarrow> Inl (FormatError (Some n) Not_integers))"

text \<open>
  Then the indices are checked; a column equal to \<open>cols\<close> is moved to \<open>cols - 1\<close>
  before the bounds check.  The result is the triple pushed on \<open>entries\<close>.
\<close>

definition place_entry :: "nat \<Rightarrow> nat \<Rightarrow> nat \<Rightarrow> int \<times> int \<times> int \<Rightarrow> error + (int \<times> int \<times> int)" where
  "place_entry numRows numCols n triple =
     (let (row, col, value) = triple in
      if row < 0 \<or> col < 0 then Inl (FormatError (Some n) Negative_index)
      else
        let col' = (if col = int numCols then int numCols - 1 else col) in
        if row \<ge> int numRows \<or> col' \<ge> int numCols then
          Inl (FormatError (Some n) (Out_of_bounds row col'))
        else Inr (row, col', value))"

definition parse_entry :: "nat \<Rightarrow> nat \<Rightarrow> nat \<Rightarrow> string \<Rightarrow> error + (int \<times> int \<times> int)" where
  "parse_entry numRows numCols n text =
     (case entry_fields n text of
        Inl e \<Rightarrow> Inl e
      | Inr triple \<Rightarrow> place_entry numRows numCols n triple)"

text \<open>\<open>for (let i = 2; i < lines.length; i++)\<close>, from line \<open>i\<close> on; the first error ends it.\<close>

fun parse_entries ::
  "nat \<Rightarrow> nat \<Rightarrow> nat \<Rightarrow> string list \<Rightarrow> error + (int \<times> int \<times> int) list" where
  "parse_entries numRows numCols i [] = Inr []"
| "parse_entries numRows numCols i (l # ls) =
     (case parse_entry numRows numCols (i + 1) l of
        Inl e \<Rightarrow> Inl e
      | Inr entry \<Rightarrow>
          (case parse_entries numRows numCols (i + 1) ls of
             Inl e \<Rightarrow> Inl e
           | Inr entries \<Rightarrow> Inr (entry # entries)))"

text \<open>
  \<open>loadFromFile\<close> on the content of the file, as the constructor calls it on a fresh
  object (the check that the file exists and the reading are left to the caller).
  \<open>entries.sort((a, b) => a[0] - b[0] || a[1] - b[1])\<close> is a stable sort by row, then
  column: \<open>sort_key\<close> on the pair, in the lexicographic order.  The \<open>catch\<close> block only
  puts the file name in front of the message.
\<close>

definition loadFromFile :: "string \<Rightarrow> error + SparseMatrix" where
  "loadFromFile content =
     (let lines = filter (\<lambda>line. trim line \<noteq> []) (split_on CHR 0x0A content) in
      if length lines < 2 then Inl (FormatError None Too_few_lines)
      else case (match_header ''rows='' (lines ! 0), match_header ''cols='' (lines ! 1)) of
             (Some rowsMatch, Some colsMatch) \<Rightarrow>
               (case (parseInt rowsMatch, parseInt colsMatch) of
                  (Some numRows, Some numCols) \<Rightarrow>
                    if numRows \<le> 0 \<or> numCols \<le> 0 then
                      Inl (FormatError None Nonpositive_dimensions)
                    else
                      (case parse_entries (nat numRows) (nat numCols) 2 (drop 2 lines) of
                         Inl e \<Rightarrow> Inl e
                       | Inr entries \<Rightarrow>
                           setElements
                             \<lparr>rows = nat numRows, cols = nat numCols, values = [],
                              col_indices = [], row_ptr = replicate (nat numRows + 1) 0\<rparr>
                             (sort_key (\<lambda>(row, col, value). (row, col)) entries))
                | _ \<Rightarrow> Inl Unrepresented)
           | _ \<Rightarrow> Inl (FormatError None Invalid_header))"

subsection \<open>saveToFile\<close>







subsection \<open>Notions used in the statements\<close>

text \<open>A small matrix used to run the theorems on: rows \<open>[5, 0, 7]\<close> and \<open>[0, 2, 0]\<close>.\<close>

definition m0 :: SparseMatrix where
  "m0 = \<lparr>rows = 2, cols = 3, values = [5, 7, 2], col_indices = [0, 2, 1], row_ptr = [0, 2, 3]\<rparr>"

text \<open>The stored entries of \<open>M\<close> at the positions \<open>p, ..., e - 1\<close>, as (column, value) pairs.\<close>

definition entries_from :: "SparseMatrix \<Rightarrow> nat \<Rightarrow> nat \<Rightarrow> (nat \<times> int) list" where
  "entries_from M p e = zip (slice (col_indices M) p e) (slice (values M) p e)"

text \<open>
  What a row merge leaves in a cell, from the lookups of the column in the two operands'
  rows; \<open>d\<close> is the cell's previous content, kept when neither row has the column.
\<close>

definition merged_or :: "(int \<Rightarrow> int \<Rightarrow> int) \<Rightarrow> (int \<Rightarrow> int) \<Rightarrow> int option \<Rightarrow> int option \<Rightarrow> int \<Rightarrow> int" where
  "merged_or comb right a b d =
     (case a of
        Some x \<Rightarrow> (case b of Some y \<Rightarrow> comb x y | None \<Rightarrow> x)
      | None \<Rightarrow> (case b of Some y \<Rightarrow> right y | None \<Rightarrow> d))"

text \<open>The three loops of a row, run from the positions \<open>p1\<close> and \<open>p2\<close>.\<close>

definition row_from ::
  "(int \<Rightarrow> int \<Rightarrow> int) \<Rightarrow> (int \<Rightarrow> int) \<Rightarrow> SparseMatrix \<Rightarrow> SparseMatrix \<Rightarrow> nat \<Rightarrow>
   nat \<Rightarrow> nat \<Rightarrow> nat \<Rightarrow> nat \<Rightarrow> SparseMatrix \<Rightarrow> error + SparseMatrix" where
  "row_from comb right A B i e1 e2 p1 p2 res =
     (case merge_both comb right A B i e1 e2 p1 p2 res of
        Inl e \<Rightarrow> Inl e
      | Inr (p1', p2', res1) \<Rightarrow>
          (case copy_rest (\<lambda>v. v) A i e1 p1' res1 of
             Inl e \<Rightarrow> Inl e
           | Inr res2 \<Rightarrow> copy_rest right B i e2 p2' res2))"

text \<open>The entry of the product of two matrices, from their cells.\<close>

definition dot :: "SparseMatrix \<Rightarrow> SparseMatrix \<Rightarrow> nat \<Rightarrow> nat \<Rightarrow> int" where
  "dot A B i j = (\<Sum>k<cols A. cell A i k * cell B k j)"

text \<open>
  The state of \<open>multiply\<close> after the rows below \<open>k\<close>: these rows of the result are
  complete, and every row pointer from \<open>k\<close> on is the current length of \<open>values\<close>.
\<close>

definition rows_done :: "SparseMatrix \<Rightarrow> SparseMatrix \<Rightarrow> nat \<Rightarrow> int list \<times> SparseMatrix \<Rightarrow> bool" where
  "rows_done A B k state \<longleftrightarrow>
     (let (tempRow, result) = state in
      length tempRow = cols B \<and> rows result = rows A \<and> cols result = cols B \<and>
      length (row_ptr result) = rows A + 1 \<and>
      length (col_indices result) = length (values result) \<and>
      sorted (row_ptr result) \<and> 0 \<notin> set (values result) \<and>
      (\<forall>r \<in> set [k..<rows A + 1]. row_ptr result ! r = length (values result)) \<and>
      (\<forall>r \<in> set [0..<k].
          sorted_wrt (<) (row_cols result r) \<and>
          (\<forall>c \<in> set (row_cols result r). c < cols B) \<and>
          (\<forall>c \<in> set [0..<cols B]. cell result r c = dot A B r c)))"

text \<open>
  The value of the last entry of a list that addresses the cell \<open>(r, c)\<close>, if there is
  one.
\<close>

definition last_value :: "(int \<times> int \<times> int) list \<Rightarrow> nat \<Rightarrow> nat \<Rightarrow> int option" where
  "last_value es r c =
     (let fs = filter (\<lambda>(row, col, value). (row, col) = (int r, int c)) es
      in if fs = [] then None else Some (snd (snd (last fs))))"

text \<open>All entries of a list lie within the given dimensions.\<close>

definition in_bounds :: "nat \<Rightarrow> nat \<Rightarrow> (int \<times> int \<times> int) list \<Rightarrow> bool" where
  "in_bounds numRows numCols es \<longleftrightarrow>
     (\<forall>(row, col, value) \<in> set es. 0 \<le> row \<and> row < int numRows \<and> 0 \<le> col \<and> col < int numCols)"

text \<open>The lines of a text that are not blank, and those after the two header lines.\<close>

definition text_lines :: "string \<Rightarrow> string list" where
  "text_lines content = filter (\<lambda>line. trim line \<noteq> []) (split_on CHR 0x0A content)"


text \<open>
  The dimensions that the header of a text declares, when \<open>loadFromFile\<close> accepts the
  header: both lines match and both numbers are positive.
\<close>

definition header :: "string \<Rightarrow> (nat \<times> nat) option" where
  "header content =
     (let lines = text_lines content in
      if length lines < 2 then None
      else case (match_header ''rows='' (lines ! 0), match_header ''cols='' (lines ! 1)) of
             (Some rowsMatch, Some colsMatch) \<Rightarrow>
               (case (parseInt rowsMatch, parseInt colsMatch) of
                  (Some numRows, Some numCols) \<Rightarrow>
                    if numRows \<le> 0 \<or> numCols \<le> 0 then None
                    else Some (nat numRows, nat numCols)
                | _ \<Rightarrow> None)
           | _ \<Rightarrow> None)"

text \<open>Two more matrices to run the theorems on, and the two texts of the addition scenario.\<close>

definition m1 :: SparseMatrix where
  "m1 = \<lparr>rows = 3, cols = 2, values = [1, 4, - 3], col_indices = [0, 0, 1], row_ptr = [0, 1, 1, 3]\<rparr>"

definition m2 :: SparseMatrix where
  "m2 = \<lparr>rows = 2, cols = 3, values = [- 5, 1, - 2], col_indices = [0, 1, 1], row_ptr = [0, 2, 3]\<rparr>"







definition decimal_text :: string where
  "decimal_text = ''rows=2\<newline>cols=2\<newline>(0, 0, 3.5)''"

definition letters_text :: string where
  "letters_text = ''rows=2\<newline>cols=2\<newline>(0, 0, 12abc)''"







section \<open>Properties\<close>

subsection \<open>Slices, splices and shifted row pointers\<close>

lemma slice_Cons: "i < e \<Longrightarrow> e \<le> length xs \<Longrightarrow> slice xs i e = xs ! i # slice xs (Suc i) e"
  unfolding slice_def
  by (metis Cons_nth_drop_Suc Suc_diff_Suc less_le_trans take_Suc_Cons)

lemma slice_empty [simp]: "e \<le> i \<Longrightarrow> slice xs i e = []"
  by (simp add: slice_def)

lemma length_slice [simp]: "b \<le> length xs \<Longrightarrow> length (slice xs a b) = b - a"
  by (simp add: slice_def)

lemma nth_slice [simp]: "b \<le> length xs \<Longrightarrow> i < b - a \<Longrightarrow> slice xs a b ! i = xs ! (a + i)"
  by (simp add: slice_def)

lemma length_splice_ins [simp]: "length (splice_ins xs p x) = Suc (length xs)"
  by (simp add: splice_ins_def)

lemma length_splice_del [simp]: "p < length xs \<Longrightarrow> length (splice_del xs p) = length xs - 1"
  by (simp add: splice_del_def)

lemma nth_splice_ins:
  "p \<le> length xs \<Longrightarrow> i \<le> length xs \<Longrightarrow>
   splice_ins xs p x ! i = (if i < p then xs ! i else if i = p then x else xs ! (i - 1))"
  by (auto simp: splice_ins_def nth_append nth_Cons')

lemma nth_splice_del:
  "p < length xs \<Longrightarrow> i < length xs - 1 \<Longrightarrow>
   splice_del xs p ! i = (if i < p then xs ! i else xs ! (i + 1))"
  by (auto simp: splice_del_def nth_append)

lemma slice_ins_before:
  "b \<le> p \<Longrightarrow> p \<le> length xs \<Longrightarrow> slice (splice_ins xs p x) a b = slice xs a b"
  by (auto simp: list_eq_iff_nth_eq nth_splice_ins)

lemma slice_ins_after:
  "p \<le> a \<Longrightarrow> b \<le> length xs \<Longrightarrow> slice (splice_ins xs p x) (Suc a) (Suc b) = slice xs a b"
  by (auto simp: list_eq_iff_nth_eq nth_splice_ins)

lemma slice_ins_mid:
  "a \<le> p \<Longrightarrow> p \<le> b \<Longrightarrow> b \<le> length xs \<Longrightarrow>
   slice (splice_ins xs p x) a (Suc b) = slice xs a p @ x # slice xs p b"
  by (auto simp: list_eq_iff_nth_eq nth_splice_ins nth_append nth_Cons' add.commute)

lemma slice_del_before:
  "b \<le> p \<Longrightarrow> p < length xs \<Longrightarrow> slice (splice_del xs p) a b = slice xs a b"
  by (auto simp: list_eq_iff_nth_eq nth_splice_del)

lemma slice_del_after:
  "p < a \<Longrightarrow> a \<le> b \<Longrightarrow> b \<le> length xs \<Longrightarrow>
   slice (splice_del xs p) (a - 1) (b - 1) = slice xs a b"
  by (auto simp: list_eq_iff_nth_eq nth_splice_del)

lemma slice_del_mid:
  "a \<le> p \<Longrightarrow> p < b \<Longrightarrow> b \<le> length xs \<Longrightarrow>
   slice (splice_del xs p) a (b - 1) = slice xs a p @ slice xs (Suc p) b"
  by (auto simp: list_eq_iff_nth_eq nth_splice_del nth_append add.commute)

lemma slice_upd_out:
  "p < a \<or> b \<le> p \<Longrightarrow> b \<le> length xs \<Longrightarrow> slice (xs[p := x]) a b = slice xs a b"
  by (auto simp: list_eq_iff_nth_eq)

lemma slice_upd_in:
  assumes "a \<le> p" "b \<le> length xs"
  shows "slice (xs[p := x]) a b = (slice xs a b)[p - a := x]"
proof (rule nth_equalityI)
  show "length (slice (xs[p := x]) a b) = length ((slice xs a b)[p - a := x])"
    using assms by simp
next
  fix i assume "i < length (slice (xs[p := x]) a b)"
  with assms have i: "i < b - a" "a + i < length xs" by auto
  with assms show "slice (xs[p := x]) a b ! i = (slice xs a b)[p - a := x] ! i"
    by (cases "p = a + i") auto
qed

lemma shift_fold_aux:
  "n \<le> length rp \<Longrightarrow>
   length (fold (\<lambda>i xs. xs[i := f (xs ! i)]) [k..<n] rp) = length rp \<and>
   (\<forall>j < length rp. fold (\<lambda>i xs. xs[i := f (xs ! i)]) [k..<n] rp ! j =
        (if k \<le> j \<and> j < n then f (rp ! j) else rp ! j))"
proof (induction n)
  case 0
  then show ?case by simp
next
  case (Suc n)
  show ?case
  proof (cases "k \<le> n")
    case True
    with Suc show ?thesis by (auto simp: nth_list_update)
  next
    case False
    then show ?thesis by auto
  qed
qed

lemma length_shift_row_ptr [simp]: "length (shift_row_ptr f k rp) = length rp"
  using shift_fold_aux[of "length rp" rp f k] by (simp add: shift_row_ptr_def)

lemma nth_shift_row_ptr:
  "j < length rp \<Longrightarrow> shift_row_ptr f k rp ! j = (if k \<le> j then f (rp ! j) else rp ! j)"
  using shift_fold_aux[of "length rp" rp f k] by (simp add: shift_row_ptr_def)

subsection \<open>The loops of getElement and setElement\<close>

lemma get_scan_eq:
  "e \<le> length (col_indices m) \<Longrightarrow> length (col_indices m) = length (values m) \<Longrightarrow>
   get_scan m i e c =
     Inr (case map_of (zip (slice (col_indices m) i e) (slice (values m) i e)) c of
            None \<Rightarrow> 0 | Some v \<Rightarrow> v)"
proof (induction m i e c rule: get_scan.induct)
  case (1 m i e c)
  show ?case
  proof (cases "i < e")
    case True
    with 1 show ?thesis
      by (subst get_scan.simps) (simp add: slice_Cons)
  next
    case False
    then show ?thesis by (subst get_scan.simps) simp
  qed
qed

lemma extend_row_ptr_id: "r + 1 < length rp \<Longrightarrow> extend_row_ptr rp r = rp"
  by (subst extend_row_ptr.simps) simp

lemma find_pos_eq:
  "e \<le> length ci \<Longrightarrow> i \<le> e \<Longrightarrow>
   find_pos ci i e c = i + length (takeWhile (\<lambda>k. k < c) (slice ci i e))"
proof (induction ci i e c rule: find_pos.induct)
  case (1 ci i e c)
  show ?case
  proof (cases "i < e")
    case True
    with 1 show ?thesis
      by (subst find_pos.simps) (simp add: slice_Cons)
  next
    case False
    then show ?thesis by (subst find_pos.simps) simp
  qed
qed

subsection \<open>Rows of a well-formed matrix\<close>

lemma slice_append: "a \<le> p \<Longrightarrow> p \<le> b \<Longrightarrow> b \<le> length xs \<Longrightarrow> slice xs a b = slice xs a p @ slice xs p b"
  by (auto simp: list_eq_iff_nth_eq nth_append add.commute)

lemma take_slice: "a + n \<le> b \<Longrightarrow> b \<le> length xs \<Longrightarrow> take n (slice xs a b) = slice xs a (a + n)"
  by (auto simp: list_eq_iff_nth_eq)

lemma drop_slice: "b \<le> length xs \<Longrightarrow> drop n (slice xs a b) = slice xs (a + n) b"
  by (auto simp: list_eq_iff_nth_eq add.assoc)

lemma upd_row_takeWhile:
  "upd_row c v row =
    (let n = length (takeWhile (\<lambda>k. k < c) (map fst row)) in
     if n < length row \<and> fst (row ! n) = c then
       (if v = 0 then take n row @ drop (Suc n) row else row[n := (c, v)])
     else if v \<noteq> 0 then take n row @ (c, v) # drop n row
     else row)"
  by (induction row) (auto simp: Let_def)

lemma I3_bounds:
  assumes "I3 m" "r < rows m"
  shows "row_ptr m ! r \<le> row_ptr m ! (r + 1)" "row_ptr m ! (r + 1) \<le> length (values m)"
        "length (col_indices m) = length (values m)" "r + 1 < length (row_ptr m)"
  using assms sorted_nth_mono[of "row_ptr m" r "r + 1"] sorted_nth_mono[of "row_ptr m" "r + 1" "rows m"]
  by (auto simp: I3_def)

lemma I3_mono:
  assumes "I3 m" "i \<le> j" "j \<le> rows m"
  shows "row_ptr m ! i \<le> row_ptr m ! j"
  using assms sorted_nth_mono[of "row_ptr m" i j] by (auto simp: I3_def)

lemma length_row_cols [simp]: "I3 m \<Longrightarrow> r < rows m \<Longrightarrow> length (row_cols m r) = row_ptr m ! (r + 1) - row_ptr m ! r"
  using I3_bounds[of m r] by (simp add: row_cols_def)

lemma length_row_vals [simp]: "I3 m \<Longrightarrow> r < rows m \<Longrightarrow> length (row_vals m r) = row_ptr m ! (r + 1) - row_ptr m ! r"
  using I3_bounds[of m r] by (simp add: row_vals_def)

lemma map_fst_row_entries [simp]: "I3 m \<Longrightarrow> r < rows m \<Longrightarrow> map fst (row_entries m r) = row_cols m r"
  by (simp add: row_entries_def)

lemma map_snd_row_entries [simp]: "I3 m \<Longrightarrow> r < rows m \<Longrightarrow> map snd (row_entries m r) = row_vals m r"
  by (simp add: row_entries_def)

lemma getElement_cell:
  assumes "I3 m" "r < rows m" "c < cols m"
  shows "getElement m (int r) (int c) = Inr (cell m r c)"
  using assms I3_bounds[OF assms(1,2)]
  by (simp add: getElement_def row_end_def get_scan_eq cell_def row_entries_def row_cols_def row_vals_def)

lemma ins_pos_bounds:
  assumes "I3 m" "r < rows m"
  shows "row_ptr m ! r \<le> ins_pos m r c" "ins_pos m r c \<le> row_ptr m ! (r + 1)"
  using assms I3_bounds[OF assms] length_takeWhile_le[of "\<lambda>k. k < c" "row_cols m r"]
  by (auto simp: ins_pos_def)

lemma setElement_unfold:
  assumes "I3 m" "r < rows m" "c < cols m"
  shows "setElement m (int r) (int c) v =
    Inr (if ins_pos m r c < row_ptr m ! (r + 1) \<and> col_indices m ! ins_pos m r c = c then
           (if v = 0 then
              m\<lparr>values := splice_del (values m) (ins_pos m r c),
                col_indices := splice_del (col_indices m) (ins_pos m r c),
                row_ptr := shift_row_ptr (\<lambda>x. x - 1) (r + 1) (row_ptr m)\<rparr>
            else m\<lparr>values := (values m)[ins_pos m r c := v]\<rparr>)
         else if v \<noteq> 0 then
           m\<lparr>values := splice_ins (values m) (ins_pos m r c) v,
             col_indices := splice_ins (col_indices m) (ins_pos m r c) c,
             row_ptr := shift_row_ptr (\<lambda>x. x + 1) (r + 1) (row_ptr m)\<rparr>
         else m)"
proof -
  note b = I3_bounds[OF assms(1,2)] ins_pos_bounds[OF assms(1,2), of c]
  have ne: "row_ptr m \<noteq> []" using b by auto
  have ext: "extend_row_ptr (row_ptr m) r = row_ptr m"
    using b by (simp add: extend_row_ptr_id)
  have fp: "find_pos (col_indices m) (row_ptr m ! r) (row_ptr m ! (r + 1)) c = ins_pos m r c"
    using b by (simp add: find_pos_eq ins_pos_def row_cols_def)
  have pos0: "ins_pos m r c < row_ptr m ! (r + 1) \<Longrightarrow> \<forall>i \<in> set [r + 1..<length (row_ptr m)]. row_ptr m ! i \<noteq> 0"
  proof
    fix i assume lt: "ins_pos m r c < row_ptr m ! (r + 1)" and "i \<in> set [r + 1..<length (row_ptr m)]"
    then have "r + 1 \<le> i" "i \<le> rows m" using assms by (auto simp: I3_def)
    from I3_mono[OF assms(1) this] lt show "row_ptr m ! i \<noteq> 0" by simp
  qed
  show ?thesis
    using assms(2,3) ne b pos0
    by (simp add: setElement_def ext fp Let_def del: One_nat_def)
qed

subsection \<open>The effect of a splice on every row\<close>

lemma slice_rows_insert:
  assumes "sorted rp" "length rp = R + 1" "rp ! R \<le> length xs" "r < R" "r' < R"
    and "rp ! r \<le> pos" "pos \<le> rp ! (r + 1)"
  defines "rp' \<equiv> shift_row_ptr (\<lambda>x. x + 1) (r + 1) rp"
  shows "slice (splice_ins xs pos x) (rp' ! r') (rp' ! (r' + 1)) =
         (if r' = r then take (pos - rp ! r) (slice xs (rp ! r) (rp ! (r + 1))) @ x #
                         drop (pos - rp ! r) (slice xs (rp ! r) (rp ! (r + 1)))
          else slice xs (rp ! r') (rp ! (r' + 1)))"
proof -
  have mono: "\<And>i j. i \<le> j \<Longrightarrow> j \<le> R \<Longrightarrow> rp ! i \<le> rp ! j"
    using assms(1,2) by (simp add: sorted_nth_mono)
  have e: "rp ! (r + 1) \<le> length xs" using mono[of "r + 1" R] assms by simp
  have e': "rp ! (r' + 1) \<le> length xs" using mono[of "r' + 1" R] assms by simp
  consider "r' < r" | "r' = r" | "r < r'" by linarith
  then show ?thesis
  proof cases
    case 1
    then have "rp' ! r' = rp ! r'" "rp' ! (r' + 1) = rp ! (r' + 1)"
      using assms by (simp_all add: nth_shift_row_ptr)
    moreover have "rp ! (r' + 1) \<le> pos" using mono[of "r' + 1" r] 1 assms by simp
    ultimately show ?thesis using 1 e assms(7) by (simp add: slice_ins_before)
  next
    case 2
    then have "rp' ! r' = rp ! r" "rp' ! (r' + 1) = Suc (rp ! (r + 1))"
      using assms by (simp_all add: nth_shift_row_ptr)
    then show ?thesis using 2 e assms(6,7)
      by (simp add: slice_ins_mid take_slice drop_slice)
  next
    case 3
    then have "rp' ! r' = Suc (rp ! r')" "rp' ! (r' + 1) = Suc (rp ! (r' + 1))"
      using assms by (simp_all add: nth_shift_row_ptr)
    moreover have "pos \<le> rp ! r'" using mono[of "r + 1" r'] 3 assms by simp
    ultimately show ?thesis using 3 e' by (simp add: slice_ins_after)
  qed
qed

lemma slice_rows_delete:
  assumes "sorted rp" "length rp = R + 1" "rp ! R \<le> length xs" "r < R" "r' < R"
    and "rp ! r \<le> pos" "pos < rp ! (r + 1)"
  defines "rp' \<equiv> shift_row_ptr (\<lambda>x. x - 1) (r + 1) rp"
  shows "slice (splice_del xs pos) (rp' ! r') (rp' ! (r' + 1)) =
         (if r' = r then take (pos - rp ! r) (slice xs (rp ! r) (rp ! (r + 1))) @
                         drop (Suc (pos - rp ! r)) (slice xs (rp ! r) (rp ! (r + 1)))
          else slice xs (rp ! r') (rp ! (r' + 1)))"
proof -
  have mono: "\<And>i j. i \<le> j \<Longrightarrow> j \<le> R \<Longrightarrow> rp ! i \<le> rp ! j"
    using assms(1,2) by (simp add: sorted_nth_mono)
  have e: "rp ! (r + 1) \<le> length xs" using mono[of "r + 1" R] assms by simp
  have e': "rp ! (r' + 1) \<le> length xs" using mono[of "r' + 1" R] assms by simp
  have p: "pos < length xs" using e assms(7) by simp
  consider "r' < r" | "r' = r" | "r < r'" by linarith
  then show ?thesis
  proof cases
    case 1
    then have "rp' ! r' = rp ! r'" "rp' ! (r' + 1) = rp ! (r' + 1)"
      using assms by (simp_all add: nth_shift_row_ptr)
    moreover have "rp ! (r' + 1) \<le> pos" using mono[of "r' + 1" r] 1 assms by simp
    ultimately show ?thesis using 1 p by (simp add: slice_del_before)
  next
    case 2
    then have "rp' ! r' = rp ! r" "rp' ! (r' + 1) = rp ! (r + 1) - 1"
      using assms by (simp_all add: nth_shift_row_ptr)
    then show ?thesis using 2 e assms(6,7) slice_del_mid[of "rp ! r" pos "rp ! (r + 1)" xs]
      by (simp add: take_slice drop_slice)
  next
    case 3
    then have "rp' ! r' = rp ! r' - 1" "rp' ! (r' + 1) = rp ! (r' + 1) - 1"
      using assms by (simp_all add: nth_shift_row_ptr)
    moreover have "pos < rp ! r'" using mono[of "r + 1" r'] 3 assms by simp
    moreover have "rp ! r' \<le> rp ! (r' + 1)" using mono[of r' "r' + 1"] assms by simp
    ultimately show ?thesis using 3 e' slice_del_after[of pos "rp ! r'" "rp ! (r' + 1)" xs] by simp
  qed
qed

lemma slice_rows_update:
  assumes "sorted rp" "length rp = R + 1" "rp ! R \<le> length xs" "r < R" "r' < R"
    and "rp ! r \<le> pos" "pos < rp ! (r + 1)"
  shows "slice (xs[pos := x]) (rp ! r') (rp ! (r' + 1)) =
         (if r' = r then (slice xs (rp ! r) (rp ! (r + 1)))[pos - rp ! r := x]
          else slice xs (rp ! r') (rp ! (r' + 1)))"
proof -
  have mono: "\<And>i j. i \<le> j \<Longrightarrow> j \<le> R \<Longrightarrow> rp ! i \<le> rp ! j"
    using assms(1,2) by (simp add: sorted_nth_mono)
  have e: "rp ! (r + 1) \<le> length xs" using mono[of "r + 1" R] assms by simp
  have e': "rp ! (r' + 1) \<le> length xs" using mono[of "r' + 1" R] assms by simp
  consider "r' < r" | "r' = r" | "r < r'" by linarith
  then show ?thesis
  proof cases
    case 1
    have "rp ! (r' + 1) \<le> pos" using mono[of "r' + 1" r] 1 assms by simp
    then show ?thesis using 1 e' by (simp add: slice_upd_out)
  next
    case 2
    then show ?thesis using e assms(6) by (simp add: slice_upd_in)
  next
    case 3
    have "pos < rp ! r'" using mono[of "r + 1" r'] 3 assms by simp
    then show ?thesis using 3 e' by (simp add: slice_upd_out)
  qed
qed

lemma sorted_shift_inc:
  assumes "sorted rp"
  shows "sorted (shift_row_ptr (\<lambda>x. x + 1) k rp)"
  unfolding sorted_iff_nth_mono
proof (intro allI impI)
  fix i j assume ij: "i \<le> j" "j < length (shift_row_ptr (\<lambda>x. x + 1) k rp)"
  then have "rp ! i \<le> rp ! j" using assms by (simp add: sorted_nth_mono)
  then show "shift_row_ptr (\<lambda>x. x + 1) k rp ! i \<le> shift_row_ptr (\<lambda>x. x + 1) k rp ! j"
    using ij by (auto simp: nth_shift_row_ptr)
qed

lemma sorted_shift_dec:
  assumes "sorted rp" "k < length rp" "rp ! (k - 1) < rp ! k"
  shows "sorted (shift_row_ptr (\<lambda>x. x - 1) k rp)"
  unfolding sorted_iff_nth_mono
proof (intro allI impI)
  fix i j assume ij: "i \<le> j" "j < length (shift_row_ptr (\<lambda>x. x - 1) k rp)"
  then have j: "j < length rp" and i: "i < length rp" by auto
  have mono: "\<And>a b. a \<le> b \<Longrightarrow> b < length rp \<Longrightarrow> rp ! a \<le> rp ! b"
    using assms(1) by (simp add: sorted_nth_mono)
  show "shift_row_ptr (\<lambda>x. x - 1) k rp ! i \<le> shift_row_ptr (\<lambda>x. x - 1) k rp ! j"
  proof (cases "k \<le> i")
    case True
    then show ?thesis using ij i j mono[of i j] by (simp add: nth_shift_row_ptr diff_le_mono)
  next
    case False
    show ?thesis
    proof (cases "k \<le> j")
      case True
      have "rp ! i \<le> rp ! (k - 1)" using False mono[of i "k - 1"] assms(2) by simp
      moreover have "rp ! k \<le> rp ! j" using True mono[of k j] j by simp
      ultimately show ?thesis using False True i j assms(3) by (simp add: nth_shift_row_ptr)
    next
      case F2: False
      then show ?thesis using False ij i j mono[of i j] by (simp add: nth_shift_row_ptr)
    qed
  qed
qed

lemma setElement_effect:
  assumes "I3 m" "r < rows m" "c < cols m"
  shows "\<exists>m'. setElement m (int r) (int c) v = Inr m' \<and> rows m' = rows m \<and> cols m' = cols m \<and>
           I3 m' \<and>
           (\<forall>r' < rows m. row_entries m' r' =
               (if r' = r then upd_row c v (row_entries m r) else row_entries m r')) \<and>
           set (values m') \<subseteq> (if v = 0 then set (values m) else insert v (set (values m))) \<and>
           length (values m') + length (row_entries m r) =
             length (values m) + length (upd_row c v (row_entries m r)) \<and>
           (v = 0 \<and> upd_row c v (row_entries m r) = row_entries m r \<longrightarrow> m' = m)"
proof -
  define pos where "pos = ins_pos m r c"
  define n where "n = length (takeWhile (\<lambda>k. k < c) (row_cols m r))"
  define s where "s = row_ptr m ! r"
  define e where "e = row_ptr m ! (r + 1)"
  note b = I3_bounds[OF assms(1,2)] ins_pos_bounds[OF assms(1,2), of c]
  have I3': "sorted (row_ptr m)" "length (row_ptr m) = rows m + 1"
      "row_ptr m ! rows m \<le> length (values m)" "row_ptr m ! rows m \<le> length (col_indices m)"
      "row_ptr m ! rows m = length (values m)"
    using assms(1) by (auto simp: I3_def)
  have pn: "pos - s = n" "pos = s + n" by (simp_all add: pos_def ins_pos_def n_def s_def)
  have nlen: "n \<le> length (row_entries m r)" "length (row_entries m r) = e - s"
    using b assms by (simp_all add: row_entries_def n_def e_def s_def pos_def ins_pos_def)
  have n': "length (takeWhile (\<lambda>k. k < c) (map fst (row_entries m r))) = n"
    using assms by (simp add: n_def)
  have nth_n: "n < e - s \<Longrightarrow> fst (row_entries m r ! n) = col_indices m ! pos"
    using b assms by (simp add: row_entries_def row_cols_def row_vals_def pn s_def e_def)
  have leq: "length (row_cols m r) = length (row_vals m r)" using assms by simp
  let ?found = "pos < e \<and> col_indices m ! pos = c"
  have found_iff: "?found \<longleftrightarrow> n < length (row_entries m r) \<and> fst (row_entries m r ! n) = c"
    using nth_n nlen b by (auto simp: pn s_def e_def)
  have U: "upd_row c v (row_entries m r) =
     (if ?found then
        (if v = 0 then take n (row_entries m r) @ drop (Suc n) (row_entries m r)
         else (row_entries m r)[n := (c, v)])
      else if v \<noteq> 0 then take n (row_entries m r) @ (c, v) # drop n (row_entries m r)
      else row_entries m r)"
    unfolding found_iff upd_row_takeWhile[of c v "row_entries m r"] n' Let_def by simp
  consider (del) "?found" "v = 0" | (upd) "?found" "v \<noteq> 0" | (ins) "\<not> ?found" "v \<noteq> 0" | (nop) "\<not> ?found" "v = 0"
    by blast
  then show ?thesis
  proof cases
    case del
    let ?m' = "m\<lparr>values := splice_del (values m) pos, col_indices := splice_del (col_indices m) pos,
                row_ptr := shift_row_ptr (\<lambda>x. x - 1) (r + 1) (row_ptr m)\<rparr>"
    have set: "setElement m (int r) (int c) v = Inr ?m'"
      using del by (simp add: setElement_unfold[OF assms] pos_def e_def)
    have p: "pos < length (values m)" "pos < length (col_indices m)" using del b by (auto simp: e_def)
    have "I3 ?m'"
      using I3' p del b assms(2) sorted_shift_dec[of "row_ptr m" "r + 1"]
      by (auto simp: I3_def nth_shift_row_ptr pos_def e_def)
    moreover have "\<forall>r' < rows m. row_entries ?m' r' =
               (if r' = r then upd_row c v (row_entries m r) else row_entries m r')"
    proof (intro allI impI)
      fix r' assume r': "r' < rows m"
      have c: "row_cols ?m' r' = (if r' = r then take n (row_cols m r) @ drop (Suc n) (row_cols m r) else row_cols m r')"
        using slice_rows_delete[OF I3'(1,2,4) assms(2) r', of pos] b del
        by (simp add: row_cols_def pos_def e_def s_def pn[symmetric])
      have v: "row_vals ?m' r' = (if r' = r then take n (row_vals m r) @ drop (Suc n) (row_vals m r) else row_vals m r')"
        using slice_rows_delete[OF I3'(1,2,3) assms(2) r', of pos] b del
        by (simp add: row_vals_def pos_def e_def s_def pn[symmetric])
      show "row_entries ?m' r' = (if r' = r then upd_row c v (row_entries m r) else row_entries m r')"
      proof (cases "r' = r")
        case True
        have "row_entries ?m' r' = take n (row_entries m r) @ drop (Suc n) (row_entries m r)"
          unfolding row_entries_def c v using True leq by (simp add: take_zip drop_zip)
        then show ?thesis
          using True del U by simp
      next
        case False
        then show ?thesis unfolding row_entries_def c v by simp
      qed
    qed
    moreover have "set (values ?m') \<subseteq> set (values m)"
      by (auto simp: splice_del_def dest: in_set_takeD in_set_dropD)
    moreover have len: "length (upd_row c v (row_entries m r)) = length (row_entries m r) - 1"
      "0 < length (row_entries m r)"
      using del U found_iff by auto
    moreover have "upd_row c v (row_entries m r) \<noteq> row_entries m r"
      using len by (metis diff_less less_numeral_extra(1) less_irrefl)
    moreover have "length (values ?m') + length (row_entries m r) =
        length (values m) + length (upd_row c v (row_entries m r))"
      using len p by (cases "row_entries m r") simp_all
    ultimately show ?thesis using set del by auto
  next
    case upd
    let ?m' = "m\<lparr>values := (values m)[pos := v]\<rparr>"
    have set: "setElement m (int r) (int c) v = Inr ?m'"
      using upd by (simp add: setElement_unfold[OF assms] pos_def e_def)
    have "I3 ?m'" using assms(1) by (simp add: I3_def)
    moreover have "\<forall>r' < rows m. row_entries ?m' r' =
               (if r' = r then upd_row c v (row_entries m r) else row_entries m r')"
    proof (intro allI impI)
      fix r' assume r': "r' < rows m"
      have c: "row_cols ?m' r' = row_cols m r'" by (simp add: row_cols_def)
      have v: "row_vals ?m' r' = (if r' = r then (row_vals m r)[n := v] else row_vals m r')"
        using slice_rows_update[OF I3'(1,2,3) assms(2) r', of pos] b upd
        by (simp add: row_vals_def pos_def e_def s_def pn[symmetric])
      show "row_entries ?m' r' = (if r' = r then upd_row c v (row_entries m r) else row_entries m r')"
      proof (cases "r' = r")
        case True
        have "(row_cols m r)[n := c] = row_cols m r"
          using upd found_iff assms by (metis list_update_id map_fst_row_entries nth_map)
        then have "row_entries ?m' r' = (row_entries m r)[n := (c, v)]"
          unfolding row_entries_def c v using True by (simp add: update_zip)
        then show ?thesis
          using True upd U by simp
      next
        case False
        then show ?thesis unfolding row_entries_def c v by simp
      qed
    qed
    moreover have "set (values ?m') \<subseteq> insert v (set (values m))"
      by (simp add: set_update_subset_insert)
    moreover have "length (upd_row c v (row_entries m r)) = length (row_entries m r)"
      using upd U by simp
    ultimately show ?thesis using set upd by auto
  next
    case ins
    let ?m' = "m\<lparr>values := splice_ins (values m) pos v, col_indices := splice_ins (col_indices m) pos c,
                row_ptr := shift_row_ptr (\<lambda>x. x + 1) (r + 1) (row_ptr m)\<rparr>"
    have set: "setElement m (int r) (int c) v = Inr ?m'"
      using ins by (auto simp add: setElement_unfold[OF assms] pos_def e_def)
    have "I3 ?m'"
      using I3' b(3) assms(2) sorted_shift_inc[of "row_ptr m" "r + 1"]
      by (auto simp: I3_def nth_shift_row_ptr)
    moreover have "\<forall>r' < rows m. row_entries ?m' r' =
               (if r' = r then upd_row c v (row_entries m r) else row_entries m r')"
    proof (intro allI impI)
      fix r' assume r': "r' < rows m"
      have c: "row_cols ?m' r' = (if r' = r then take n (row_cols m r) @ c # drop n (row_cols m r) else row_cols m r')"
        using slice_rows_insert[OF I3'(1,2,4) assms(2) r', of pos] b
        by (simp add: row_cols_def pos_def e_def s_def pn[symmetric])
      have v: "row_vals ?m' r' = (if r' = r then take n (row_vals m r) @ v # drop n (row_vals m r) else row_vals m r')"
        using slice_rows_insert[OF I3'(1,2,3) assms(2) r', of pos] b
        by (simp add: row_vals_def pos_def e_def s_def pn[symmetric])
      show "row_entries ?m' r' = (if r' = r then upd_row c v (row_entries m r) else row_entries m r')"
      proof (cases "r' = r")
        case True
        have "row_entries ?m' r' = take n (row_entries m r) @ (c, v) # drop n (row_entries m r)"
          unfolding row_entries_def c v using True leq by (simp add: take_zip drop_zip)
        then show ?thesis
          using True ins U by auto
      next
        case False
        then show ?thesis unfolding row_entries_def c v by simp
      qed
    qed
    moreover have "set (values ?m') \<subseteq> insert v (set (values m))"
      by (auto simp: splice_ins_def dest: in_set_takeD in_set_dropD)
    moreover have "length (upd_row c v (row_entries m r)) = Suc (length (row_entries m r))"
      using ins U nlen by auto
    ultimately show ?thesis using set ins by auto
  next
    case nop
    have "setElement m (int r) (int c) v = Inr m"
      using nop by (auto simp add: setElement_unfold[OF assms] pos_def e_def)
    moreover have "upd_row c v (row_entries m r) = row_entries m r"
      using nop U by auto
    ultimately show ?thesis using assms nop by auto
  qed
qed

subsection \<open>Updating a sorted row\<close>

lemma set_upd_row: "p \<in> set (upd_row c v row) \<Longrightarrow> p = (c, v) \<and> v \<noteq> 0 \<or> p \<in> set row"
  by (induction row) (auto split: if_splits)

lemma sorted_upd_row:
  "sorted_wrt (<) (map fst row) \<Longrightarrow> sorted_wrt (<) (map fst (upd_row c v row))"
proof (induction row)
  case Nil
  then show ?case by simp
next
  case (Cons p ps)
  obtain k w where p: "p = (k, w)" by (cases p)
  have "\<forall>x \<in> set (upd_row c v ps). k < c \<longrightarrow> k < fst x"
    using set_upd_row[of _ c v ps] Cons.prems p by fastforce
  with Cons p show ?case by auto
qed

lemma map_of_upd_row:
  "sorted_wrt (<) (map fst row) \<Longrightarrow>
   map_of (upd_row c v row) c' =
     (if c' = c then (if v = 0 then None else Some v) else map_of row c')"
proof (induction row)
  case Nil
  then show ?case by simp
next
  case (Cons p ps)
  obtain k w where p: "p = (k, w)" by (cases p)
  have "c \<le> k \<Longrightarrow> map_of ps c = None"
    using Cons.prems p by (fastforce simp: map_of_eq_None_iff)
  with Cons p show ?case by auto
qed

lemma length_upd_row:
  "sorted_wrt (<) (map fst row) \<Longrightarrow>
   length (upd_row c v row) =
     (if c \<in> set (map fst row) then (if v = 0 then length row - 1 else length row)
      else (if v = 0 then length row else length row + 1))"
proof (induction row)
  case Nil
  then show ?case by simp
next
  case (Cons p ps)
  obtain k w where p: "p = (k, w)" by (cases p)
  have "c \<le> k \<Longrightarrow> c \<notin> set (map fst ps)"
    using Cons.prems p by fastforce
  moreover have "c \<in> set (map fst ps) \<Longrightarrow> 0 < length ps" by (cases ps) auto
  ultimately show ?case using Cons p by (auto simp: Suc_diff_le Suc_leI simp del: set_map)
qed

lemma upd_row_absent_zero: "sorted_wrt (<) (map fst row) \<Longrightarrow> c \<notin> set (map fst row) \<Longrightarrow> upd_row c 0 row = row"
  by (induction row) auto

lemma cell_setElement:
  assumes "I1 m" "I3 m" "r < rows m" "c < cols m" "setElement m (int r) (int c) v = Inr m'"
    and "r' < rows m"
  shows "cell m' r' c' = (if r' = r \<and> c' = c then v else cell m r' c')"
proof -
  from setElement_effect[OF assms(2,3,4), of v] assms(5,6)
  have re: "row_entries m' r' = (if r' = r then upd_row c v (row_entries m r) else row_entries m r')"
    by auto
  have "sorted_wrt (<) (map fst (row_entries m r))" using assms by (simp add: I1_def)
  from map_of_upd_row[OF this, of c v c'] re show ?thesis
    by (auto simp: cell_def)
qed

lemma invariants_setElement:
  assumes "invariants m" "r < rows m" "c < cols m"
  shows "\<exists>m'. setElement m (int r) (int c) v = Inr m' \<and> invariants m' \<and>
              rows m' = rows m \<and> cols m' = cols m"
proof -
  have i: "I1 m" "I2 m" "I3 m" using assms(1) by (simp_all add: invariants_def)
  from setElement_effect[OF i(3) assms(2,3), of v] obtain m' where
    m': "setElement m (int r) (int c) v = Inr m'" "rows m' = rows m" "cols m' = cols m" "I3 m'"
      "\<forall>r' < rows m. row_entries m' r' =
               (if r' = r then upd_row c v (row_entries m r) else row_entries m r')"
      "set (values m') \<subseteq> (if v = 0 then set (values m) else insert v (set (values m)))"
    by blast
  have "I2 m'" using i(2) m'(6) by (auto simp: I2_def split: if_splits)
  moreover have "I1 m'"
    unfolding I1_def
  proof (intro ballI)
    fix r' assume "r' \<in> set [0..<rows m']"
    then have r': "r' < rows m" using m'(2) by simp
    have old: "sorted_wrt (<) (row_cols m r')" "\<forall>k \<in> set (row_cols m r'). k < cols m"
         "sorted_wrt (<) (row_cols m r)" "\<forall>k \<in> set (row_cols m r). k < cols m"
      using i(1) r' assms(2) by (auto simp: I1_def)
    have rc: "row_cols m' r' = map fst (row_entries m' r')" using m'(2,4) r' by simp
    have rc0: "row_cols m r = map fst (row_entries m r)" using i(3) assms(2) by simp
    show "sorted_wrt (<) (row_cols m' r') \<and> (\<forall>c \<in> set (row_cols m' r'). c < cols m')"
    proof (cases "r' = r")
      case True
      then have eq: "row_cols m' r' = map fst (upd_row c v (row_entries m r))"
        using rc m'(5) r' by simp
      have "sorted_wrt (<) (row_cols m' r')"
        unfolding eq using old(3) rc0 sorted_upd_row by simp
      moreover have "\<forall>k \<in> set (row_cols m' r'). k < cols m'"
        unfolding eq using set_upd_row[of _ c v "row_entries m r"] old(4) rc0 assms(3) m'(3)
        by fastforce
      ultimately show ?thesis by simp
    next
      case False
      then have "row_cols m' r' = row_cols m r'"
        using rc m'(5) r' i(3) by simp
      then show ?thesis using old m'(3) by simp
    qed
  qed
  ultimately show ?thesis using m' by (auto simp: invariants_def)
qed

subsection \<open>Setting and reading a cell\<close>

lemma invariants_new: "invariants (new_SparseMatrix R C)"
  by (auto simp: invariants_def I1_def I2_def I3_def new_SparseMatrix_def row_cols_def nth_Cons' )

lemma setElements_invariants:
  assumes "invariants m"
    and "\<forall>(row, col, value) \<in> set ops. 0 \<le> row \<and> row < int (rows m) \<and> 0 \<le> col \<and> col < int (cols m)"
  shows "\<exists>m'. setElements m ops = Inr m' \<and> invariants m' \<and> rows m' = rows m \<and> cols m' = cols m"
  using assms
proof (induction ops arbitrary: m)
  case Nil
  then show ?case by simp
next
  case (Cons op ops)
  obtain row col v where op: "op = (row, col, v)" by (cases op)
  with Cons.prems have b: "0 \<le> row" "row < int (rows m)" "0 \<le> col" "col < int (cols m)" by auto
  then have "nat row < rows m" "nat col < cols m" by auto
  from invariants_setElement[OF Cons.prems(1) this, of v] b obtain m1 where
    m1: "setElement m row col v = Inr m1" "invariants m1" "rows m1 = rows m" "cols m1 = cols m"
    by auto
  from Cons.IH[OF m1(2)] Cons.prems(2) m1(3,4) obtain m' where
    "setElements m1 ops = Inr m'" "invariants m'" "rows m' = rows m1" "cols m' = cols m1"
    by auto
  then show ?case using op m1 by simp
qed

text \<open>
  C2.  Starting from the empty matrix the constructor builds for positive dimensions,
  every sequence of \<open>setElement\<close> calls whose indices are in bounds runs through
  without an exception and leaves a matrix that satisfies I1, I2 and I3.
\<close>

theorem C2_invariants_after_sets:
  assumes "0 < numRows" "0 < numCols"
    and "\<forall>(row, col, value) \<in> set ops. 0 \<le> row \<and> row < int numRows \<and> 0 \<le> col \<and> col < int numCols"
  shows "\<exists>m. setElements (new_SparseMatrix numRows numCols) ops = Inr m \<and> I1 m \<and> I2 m \<and> I3 m"
  using setElements_invariants[OF invariants_new, where ops = ops and R1 = numRows and C1 = numCols] assms(3)
  by (auto simp: new_SparseMatrix_def invariants_def)

theorem C2_witness:
  "\<exists>m. setElements (new_SparseMatrix 2 3) [(0, 1, 5), (1, 2, 7), (0, 1, 0), (1, 0, 4), (1, 2, 9)] = Inr m
        \<and> I1 m \<and> I2 m \<and> I3 m"
  by (rule C2_invariants_after_sets) simp_all

text \<open>
  C1.  On a matrix that satisfies I1--I3, \<open>setElement\<close> at an in-bounds cell returns
  normally and \<open>getElement\<close> at that cell then returns the value set.  The number of
  stored entries grows by one when the column was absent and the value is not 0, stays
  when the column was present and the value is not 0, shrinks by one when the column was
  present and the value is 0, and the matrix is unchanged when the column was absent and
  the value is 0.
\<close>

theorem C1_set_then_get:
  assumes "invariants m" "0 \<le> row" "row < int (rows m)" "0 \<le> col" "col < int (cols m)"
  shows "\<exists>m'. setElement m row col value = Inr m' \<and> getElement m' row col = Inr value \<and>
     (let present = (nat col \<in> set (row_cols m (nat row))) in
        (\<not> present \<and> value \<noteq> 0 \<longrightarrow> length (values m') = length (values m) + 1) \<and>
        (present \<and> value \<noteq> 0 \<longrightarrow> length (values m') = length (values m)) \<and>
        (present \<and> value = 0 \<longrightarrow> length (values m') + 1 = length (values m)) \<and>
        (\<not> present \<and> value = 0 \<longrightarrow> m' = m))"
proof -
  define r c where "r = nat row" and "c = nat col"
  have rc: "row = int r" "col = int c" "r < rows m" "c < cols m" using assms by (auto simp: r_def c_def)
  have i: "I1 m" "I2 m" "I3 m" using assms(1) by (simp_all add: invariants_def)
  from setElement_effect[OF i(3) rc(3,4), of "value"] obtain m' where
    m': "setElement m (int r) (int c) value = Inr m'" "rows m' = rows m" "cols m' = cols m" "I3 m'"
      "length (values m') + length (row_entries m r) =
             length (values m) + length (upd_row c value (row_entries m r))"
      "value = 0 \<and> upd_row c value (row_entries m r) = row_entries m r \<longrightarrow> m' = m"
    by blast
  have srt: "sorted_wrt (<) (map fst (row_entries m r))" using i rc by (simp add: I1_def)
  have "cell m' r c = value"
    using cell_setElement[OF i(1,3) rc(3,4) m'(1) rc(3), of c] by simp
  then have get: "getElement m' (int r) (int c) = Inr value"
    using getElement_cell[of m' r c] m' rc by simp
  have mf: "map fst (row_entries m r) = row_cols m r" using i rc by simp
  note len = length_upd_row[OF srt, of c "value", unfolded mf]
  have nop: "c \<notin> set (row_cols m r) \<Longrightarrow> value = 0 \<Longrightarrow> m' = m"
    using upd_row_absent_zero[OF srt, of c] m'(6) mf by simp
  have del: "c \<in> set (row_cols m r) \<Longrightarrow> value = 0 \<Longrightarrow> length (values m') + 1 = length (values m)"
    using mf m'(5) len by (cases "row_entries m r") auto
  show ?thesis
    unfolding rc(1,2) Let_def nat_int
    using m'(1,5) get len nop del by (intro exI[of _ m']) auto
qed

theorem C1_witness:
  "\<exists>m'. setElement m0 0 1 9 = Inr m' \<and> getElement m' 0 1 = Inr 9"
proof -
  have "invariants m0" by code_simp
  from C1_set_then_get[OF this, of 0 1 9] show ?thesis by (auto simp: m0_def)
qed

subsection \<open>add and subtract\<close>

lemma setElement_spec:
  assumes "invariants m" "r < rows m" "c < cols m"
  shows "\<exists>m'. setElement m (int r) (int c) v = Inr m' \<and> invariants m' \<and>
              rows m' = rows m \<and> cols m' = cols m \<and>
              (\<forall>r' < rows m. \<forall>c'. cell m' r' c' = (if r' = r \<and> c' = c then v else cell m r' c'))"
proof -
  from invariants_setElement[OF assms, of v] obtain m' where
    m': "setElement m (int r) (int c) v = Inr m'" "invariants m'" "rows m' = rows m" "cols m' = cols m"
    by blast
  have "I1 m" "I3 m" using assms(1) by (simp_all add: invariants_def)
  from cell_setElement[OF this assms(2,3) m'(1)] m' show ?thesis by auto
qed

lemma entries_from_Cons:
  "p < e \<Longrightarrow> e \<le> length (col_indices M) \<Longrightarrow> length (col_indices M) = length (values M) \<Longrightarrow>
   entries_from M p e = (col_indices M ! p, values M ! p) # entries_from M (Suc p) e"
  by (simp add: entries_from_def slice_Cons)

lemma entries_from_Nil [simp]: "e \<le> p \<Longrightarrow> entries_from M p e = []"
  by (simp add: entries_from_def)

lemma copy_rest_spec:
  assumes "invariants res" "i < rows res"
    and "e \<le> length (col_indices M)" "length (col_indices M) = length (values M)"
    and "distinct (map fst (entries_from M p e))"
    and "\<forall>c \<in> set (map fst (entries_from M p e)). c < cols res"
  shows "\<exists>res'. copy_rest f M i e p res = Inr res' \<and> invariants res' \<and>
           rows res' = rows res \<and> cols res' = cols res \<and>
           (\<forall>r < rows res. \<forall>c. cell res' r c =
              (if r = i then (case map_of (entries_from M p e) c of
                                Some v \<Rightarrow> f v | None \<Rightarrow> cell res r c)
               else cell res r c))"
  using assms
proof (induction f M i e p res rule: copy_rest.induct)
  case (1 f M i e p res)
  show ?case
  proof (cases "p < e")
    case False
    then show ?thesis using "1.prems"(1) by (subst copy_rest.simps) simp
  next
    case True
    let ?c = "col_indices M ! p" and ?v = "values M ! p"
    have ef: "entries_from M p e = (?c, ?v) # entries_from M (Suc p) e"
      using True 1 by (simp add: entries_from_Cons)
    have c: "?c < cols res" using "1.prems"(6) ef by simp
    from setElement_spec[OF "1.prems"(1,2) c, of "f ?v"] obtain res1 where
      r1: "setElement res (int i) (int ?c) (f ?v) = Inr res1" "invariants res1"
          "rows res1 = rows res" "cols res1 = cols res"
          "\<forall>r' < rows res. \<forall>c'. cell res1 r' c' = (if r' = i \<and> c' = ?c then f ?v else cell res r' c')"
      by blast
    have pl: "p < length (col_indices M) \<and> p < length (values M)" using True "1.prems" by simp
    have "\<exists>res'. copy_rest f M i e (p + 1) res1 = Inr res' \<and> invariants res' \<and>
           rows res' = rows res1 \<and> cols res' = cols res1 \<and>
           (\<forall>r < rows res1. \<forall>c. cell res' r c =
              (if r = i then (case map_of (entries_from M (p + 1) e) c of
                                Some v \<Rightarrow> f v | None \<Rightarrow> cell res1 r c)
               else cell res1 r c))"
      using "1.prems" r1 ef by (intro "1.IH"[OF True pl r1(1)]) auto
    then obtain res' where
      r': "copy_rest f M i e (p + 1) res1 = Inr res'" "invariants res'"
          "rows res' = rows res1" "cols res' = cols res1"
          "\<forall>r < rows res1. \<forall>c. cell res' r c =
              (if r = i then (case map_of (entries_from M (p + 1) e) c of
                                Some v \<Rightarrow> f v | None \<Rightarrow> cell res1 r c)
               else cell res1 r c)"
      by blast
    have notin: "map_of (entries_from M (Suc p) e) ?c = None"
      using "1.prems"(5) ef by (simp add: map_of_eq_None_iff)
    have "copy_rest f M i e p res = Inr res'"
      using True pl r1(1) r'(1) by (subst copy_rest.simps) simp
    moreover have "\<forall>r < rows res. \<forall>c. cell res' r c =
              (if r = i then (case map_of (entries_from M p e) c of
                                Some v \<Rightarrow> f v | None \<Rightarrow> cell res r c)
               else cell res r c)"
      using r'(5) r1(3,5) notin "1.prems"(2) by (auto simp: ef split: option.splits)
    ultimately show ?thesis using r' r1 by auto
  qed
qed

lemma row_from_exit:
  "\<not> (p1 < e1 \<and> p2 < e2) \<Longrightarrow>
   row_from comb right A B i e1 e2 p1 p2 res =
     (case copy_rest (\<lambda>v. v) A i e1 p1 res of
        Inl e \<Rightarrow> Inl e
      | Inr res2 \<Rightarrow> copy_rest right B i e2 p2 res2)"
  unfolding row_from_def by (subst merge_both.simps) auto

lemma row_from_step:
  assumes "p1 < e1" "p2 < e2" "e1 \<le> length (col_indices A)" "e2 \<le> length (col_indices B)"
    "length (col_indices A) = length (values A)" "length (col_indices B) = length (values B)"
  shows "row_from comb right A B i e1 e2 p1 p2 res =
    (let col1 = col_indices A ! p1; col2 = col_indices B ! p2 in
     if col1 < col2 then
       (case setElement res (int i) (int col1) (values A ! p1) of
          Inl e \<Rightarrow> Inl e
        | Inr res' \<Rightarrow> row_from comb right A B i e1 e2 (p1 + 1) p2 res')
     else if col2 < col1 then
       (case setElement res (int i) (int col2) (right (values B ! p2)) of
          Inl e \<Rightarrow> Inl e
        | Inr res' \<Rightarrow> row_from comb right A B i e1 e2 p1 (p2 + 1) res')
     else
       (let v = comb (values A ! p1) (values B ! p2) in
        if v \<noteq> 0 then
          (case setElement res (int i) (int col1) v of
             Inl e \<Rightarrow> Inl e
           | Inr res' \<Rightarrow> row_from comb right A B i e1 e2 (p1 + 1) (p2 + 1) res')
        else row_from comb right A B i e1 e2 (p1 + 1) (p2 + 1) res))"
  using assms unfolding row_from_def
  by (subst merge_both.simps) (auto simp: Let_def split: sum.splits)

lemma map_of_None_less:
  "\<forall>x \<in> set (map fst ps). (k::nat) < x \<Longrightarrow> c \<le> k \<Longrightarrow> map_of ps c = None"
  by (force simp: map_of_eq_None_iff)

lemma row_from_spec:
  assumes "invariants res" "i < rows res"
    and "e1 \<le> length (col_indices A)" "length (col_indices A) = length (values A)"
    and "e2 \<le> length (col_indices B)" "length (col_indices B) = length (values B)"
    and "sorted_wrt (<) (map fst (entries_from A p1 e1))"
    and "sorted_wrt (<) (map fst (entries_from B p2 e2))"
    and "\<forall>c \<in> set (map fst (entries_from A p1 e1)) \<union> set (map fst (entries_from B p2 e2)).
           c < cols res \<and> cell res i c = 0"
  shows "\<exists>res'. row_from comb right A B i e1 e2 p1 p2 res = Inr res' \<and> invariants res' \<and>
           rows res' = rows res \<and> cols res' = cols res \<and>
           (\<forall>r < rows res. \<forall>c. cell res' r c =
              (if r = i then merged_or comb right (map_of (entries_from A p1 e1) c)
                               (map_of (entries_from B p2 e2) c) (cell res r c)
               else cell res r c))"
  using assms(1,2,7,8,9)
proof (induction "(e1 - p1) + (e2 - p2)" arbitrary: p1 p2 res rule: less_induct)
  case less
  note inv = less.prems(1) and i = less.prems(2) and sa = less.prems(3) and sb = less.prems(4)
    and bnd = less.prems(5)
  let ?as = "entries_from A p1 e1" and ?bs = "entries_from B p2 e2"
  show ?case
  proof (cases "p1 < e1 \<and> p2 < e2")
    case False
    have da: "distinct (map fst ?as)" using sa by (simp add: strict_sorted_iff)
    have db: "distinct (map fst ?bs)" using sb by (simp add: strict_sorted_iff)
    from copy_rest_spec[OF inv i assms(3,4) da, of "\<lambda>v. v"] bnd obtain res2 where
      r2: "copy_rest (\<lambda>v. v) A i e1 p1 res = Inr res2" "invariants res2"
          "rows res2 = rows res" "cols res2 = cols res"
          "\<forall>r < rows res. \<forall>c. cell res2 r c =
              (if r = i then (case map_of ?as c of Some v \<Rightarrow> v | None \<Rightarrow> cell res r c)
               else cell res r c)"
      by auto
    have i2: "i < rows res2" using i r2 by simp
    have b2: "\<forall>c \<in> set (map fst ?bs). c < cols res2" using bnd r2 by auto
    from copy_rest_spec[OF r2(2) i2 assms(5,6) db b2, of right] obtain res' where
      r': "copy_rest right B i e2 p2 res2 = Inr res'" "invariants res'"
          "rows res' = rows res2" "cols res' = cols res2"
          "\<forall>r < rows res2. \<forall>c. cell res' r c =
              (if r = i then (case map_of ?bs c of Some v \<Rightarrow> right v | None \<Rightarrow> cell res2 r c)
               else cell res2 r c)"
      by auto
    have one_empty: "?as = [] \<or> ?bs = []" using False by auto
    have "row_from comb right A B i e1 e2 p1 p2 res = Inr res'"
      using False r2(1) r'(1) by (simp add: row_from_exit)
    moreover have "\<forall>r < rows res. \<forall>c. cell res' r c =
              (if r = i then merged_or comb right (map_of ?as c) (map_of ?bs c) (cell res r c)
               else cell res r c)"
      using one_empty r2(3,5) r'(5) by (auto simp: merged_or_def split: option.splits)
    ultimately show ?thesis using r2 r' by auto
  next
    case True
    let ?c1 = "col_indices A ! p1" and ?v1 = "values A ! p1"
    let ?c2 = "col_indices B ! p2" and ?v2 = "values B ! p2"
    let ?as' = "entries_from A (Suc p1) e1" and ?bs' = "entries_from B (Suc p2) e2"
    have ea: "?as = (?c1, ?v1) # ?as'" using True assms(3,4) by (simp add: entries_from_Cons)
    have eb: "?bs = (?c2, ?v2) # ?bs'" using True assms(5,6) by (simp add: entries_from_Cons)
    have sa': "sorted_wrt (<) (map fst ?as')" and ka: "\<forall>x \<in> set (map fst ?as'). ?c1 < x"
      using sa ea by auto
    have sb': "sorted_wrt (<) (map fst ?bs')" and kb: "\<forall>x \<in> set (map fst ?bs'). ?c2 < x"
      using sb eb by auto
    have c1: "?c1 < cols res" "cell res i ?c1 = 0" using bnd ea by auto
    have c2: "?c2 < cols res" "cell res i ?c2 = 0" using bnd eb by auto
    note step = row_from_step[OF conjunct1[OF True] conjunct2[OF True] assms(3,5,4,6), of comb right i res]
    consider (lt) "?c1 < ?c2" | (gt) "?c2 < ?c1" | (eq) "?c1 = ?c2" by linarith
    then show ?thesis
    proof cases
      case lt
      from setElement_spec[OF inv i c1(1), of ?v1] obtain res1 where
        r1: "setElement res (int i) (int ?c1) ?v1 = Inr res1" "invariants res1"
            "rows res1 = rows res" "cols res1 = cols res"
            "\<forall>r' < rows res. \<forall>c'. cell res1 r' c' = (if r' = i \<and> c' = ?c1 then ?v1 else cell res r' c')"
        by blast
      have n1: "map_of ?as' ?c1 = None" using ka by (rule map_of_None_less) simp
      have n2: "map_of ?bs ?c1 = None" using kb lt unfolding eb
        by (simp add: map_of_None_less[of ?bs' ?c2 ?c1])
      have "\<exists>res'. row_from comb right A B i e1 e2 (Suc p1) p2 res1 = Inr res' \<and> invariants res' \<and>
           rows res' = rows res1 \<and> cols res' = cols res1 \<and>
           (\<forall>r < rows res1. \<forall>c. cell res' r c =
              (if r = i then merged_or comb right (map_of ?as' c) (map_of ?bs c) (cell res1 r c)
               else cell res1 r c))"
      proof (rule less.hyps[OF _ r1(2) _ sa' sb])
        show "e1 - Suc p1 + (e2 - p2) < e1 - p1 + (e2 - p2)" using True by linarith
        show "i < rows res1" using i r1 by simp
        show "\<forall>c \<in> set (map fst ?as') \<union> set (map fst ?bs). c < cols res1 \<and> cell res1 i c = 0"
          using bnd ea i r1(3,4,5) n1 n2 by (auto simp: map_of_eq_None_iff)
      qed
      then obtain res' where
        r': "row_from comb right A B i e1 e2 (Suc p1) p2 res1 = Inr res'" "invariants res'"
            "rows res' = rows res1" "cols res' = cols res1"
            "\<forall>r < rows res1. \<forall>c. cell res' r c =
              (if r = i then merged_or comb right (map_of ?as' c) (map_of ?bs c) (cell res1 r c)
               else cell res1 r c)"
        by blast
      have "row_from comb right A B i e1 e2 p1 p2 res = Inr res'"
        using lt r1(1) r'(1) by (simp add: step)
      moreover have "\<forall>r < rows res. \<forall>c. cell res' r c =
              (if r = i then merged_or comb right (map_of ?as c) (map_of ?bs c) (cell res r c)
               else cell res r c)"
        using r'(5) r1(3,5) n1 n2 i unfolding ea
        by (auto simp: merged_or_def split: option.splits)
      ultimately show ?thesis using r1 r' by auto
    next
      case gt
      from setElement_spec[OF inv i c2(1), of "right ?v2"] obtain res1 where
        r1: "setElement res (int i) (int ?c2) (right ?v2) = Inr res1" "invariants res1"
            "rows res1 = rows res" "cols res1 = cols res"
            "\<forall>r' < rows res. \<forall>c'. cell res1 r' c' = (if r' = i \<and> c' = ?c2 then right ?v2 else cell res r' c')"
        by blast
      have n1: "map_of ?bs' ?c2 = None" using kb by (rule map_of_None_less) simp
      have n2: "map_of ?as ?c2 = None" using ka gt unfolding ea
        by (simp add: map_of_None_less[of ?as' ?c1 ?c2])
      have "\<exists>res'. row_from comb right A B i e1 e2 p1 (Suc p2) res1 = Inr res' \<and> invariants res' \<and>
           rows res' = rows res1 \<and> cols res' = cols res1 \<and>
           (\<forall>r < rows res1. \<forall>c. cell res' r c =
              (if r = i then merged_or comb right (map_of ?as c) (map_of ?bs' c) (cell res1 r c)
               else cell res1 r c))"
      proof (rule less.hyps[OF _ r1(2) _ sa sb'])
        show "e1 - p1 + (e2 - Suc p2) < e1 - p1 + (e2 - p2)" using True by linarith
        show "i < rows res1" using i r1 by simp
        show "\<forall>c \<in> set (map fst ?as) \<union> set (map fst ?bs'). c < cols res1 \<and> cell res1 i c = 0"
          using bnd eb i r1(3,4,5) n1 n2 by (auto simp: map_of_eq_None_iff)
      qed
      then obtain res' where
        r': "row_from comb right A B i e1 e2 p1 (Suc p2) res1 = Inr res'" "invariants res'"
            "rows res' = rows res1" "cols res' = cols res1"
            "\<forall>r < rows res1. \<forall>c. cell res' r c =
              (if r = i then merged_or comb right (map_of ?as c) (map_of ?bs' c) (cell res1 r c)
               else cell res1 r c)"
        by blast
      have "row_from comb right A B i e1 e2 p1 p2 res = Inr res'"
        using gt r1(1) r'(1) by (simp add: step)
      moreover have "\<forall>r < rows res. \<forall>c. cell res' r c =
              (if r = i then merged_or comb right (map_of ?as c) (map_of ?bs c) (cell res r c)
               else cell res r c)"
        using r'(5) r1(3,5) n1 n2 i unfolding eb
        by (auto simp: merged_or_def split: option.splits)
      ultimately show ?thesis using r1 r' by auto
    next
      case eq
      let ?v = "comb ?v1 ?v2"
      have n1: "map_of ?as' ?c1 = None" using ka by (rule map_of_None_less) simp
      have "map_of ?bs' ?c2 = None" using kb by (rule map_of_None_less) simp
      then have n2: "map_of ?bs' ?c1 = None" using eq by simp
      have "\<exists>res1. (if ?v \<noteq> 0 then setElement res (int i) (int ?c1) ?v else Inr res) = Inr res1 \<and>
            invariants res1 \<and> rows res1 = rows res \<and> cols res1 = cols res \<and>
            (\<forall>r' < rows res. \<forall>c'. cell res1 r' c' = (if r' = i \<and> c' = ?c1 then ?v else cell res r' c'))"
      proof (cases "?v = 0")
        case True
        then show ?thesis using inv c1(2) by auto
      next
        case False
        then show ?thesis using setElement_spec[OF inv i c1(1), of ?v] by simp
      qed
      then obtain res1 where
        r1: "(if ?v \<noteq> 0 then setElement res (int i) (int ?c1) ?v else Inr res) = Inr res1" "invariants res1"
            "rows res1 = rows res" "cols res1 = cols res"
            "\<forall>r' < rows res. \<forall>c'. cell res1 r' c' = (if r' = i \<and> c' = ?c1 then ?v else cell res r' c')"
        by blast
      have "\<exists>res'. row_from comb right A B i e1 e2 (Suc p1) (Suc p2) res1 = Inr res' \<and> invariants res' \<and>
           rows res' = rows res1 \<and> cols res' = cols res1 \<and>
           (\<forall>r < rows res1. \<forall>c. cell res' r c =
              (if r = i then merged_or comb right (map_of ?as' c) (map_of ?bs' c) (cell res1 r c)
               else cell res1 r c))"
      proof (rule less.hyps[OF _ r1(2) _ sa' sb'])
        show "e1 - Suc p1 + (e2 - Suc p2) < e1 - p1 + (e2 - p2)" using True by linarith
        show "i < rows res1" using i r1 by simp
        show "\<forall>c \<in> set (map fst ?as') \<union> set (map fst ?bs'). c < cols res1 \<and> cell res1 i c = 0"
          using bnd ea eb i r1(3,4,5) n1 n2 by (auto simp: map_of_eq_None_iff)
      qed
      then obtain res' where
        r': "row_from comb right A B i e1 e2 (Suc p1) (Suc p2) res1 = Inr res'" "invariants res'"
            "rows res' = rows res1" "cols res' = cols res1"
            "\<forall>r < rows res1. \<forall>c. cell res' r c =
              (if r = i then merged_or comb right (map_of ?as' c) (map_of ?bs' c) (cell res1 r c)
               else cell res1 r c)"
        by blast
      have "row_from comb right A B i e1 e2 p1 p2 res = Inr res'"
        using eq r1(1) r'(1) by (auto simp add: step Let_def split: if_splits)
      moreover have "\<forall>r < rows res. \<forall>c. cell res' r c =
              (if r = i then merged_or comb right (map_of ?as c) (map_of ?bs c) (cell res r c)
               else cell res r c)"
        using r'(5) r1(3,5) n1 n2 i eq unfolding ea eb
        by (auto simp: merged_or_def split: option.splits)
      ultimately show ?thesis using r1 r' by auto
    qed
  qed
qed

lemma entries_from_row: "entries_from M (row_ptr M ! r) (row_ptr M ! Suc r) = row_entries M r"
  by (simp add: entries_from_def row_entries_def row_cols_def row_vals_def)

lemma row_end_I3: "I3 M \<Longrightarrow> r < rows M \<Longrightarrow> row_end M r = row_ptr M ! (r + 1)"
  by (simp add: row_end_def I3_def)

lemma merge_row_spec:
  assumes "invariants A" "invariants B" "invariants res"
    and "rows B = rows A" "cols B = cols A" "rows res = rows A" "cols res = cols A"
    and "i < rows A" "\<forall>c. cell res i c = 0"
  shows "\<exists>res'. merge_row comb right A B i res = Inr res' \<and> invariants res' \<and>
           rows res' = rows res \<and> cols res' = cols res \<and>
           (\<forall>r < rows res. \<forall>c. cell res' r c =
              (if r = i then merged_or comb right (map_of (row_entries A i) c)
                               (map_of (row_entries B i) c) 0
               else cell res r c))"
proof -
  have iA: "I1 A" "I3 A" and iB: "I1 B" "I3 B" using assms(1,2) by (simp_all add: invariants_def)
  have iB': "i < rows B" using assms by simp
  note bA = I3_bounds[OF iA(2) assms(8)] and bB = I3_bounds[OF iB(2) iB']
  have mr: "merge_row comb right A B i res =
      row_from comb right A B i (row_ptr A ! Suc i) (row_ptr B ! Suc i) (row_ptr A ! i) (row_ptr B ! i) res"
    using bA bB iA iB assms(8) iB'
    by (simp add: merge_row_def row_from_def row_end_I3 Let_def)
  have sA: "sorted_wrt (<) (map fst (row_entries A i))" "\<forall>c \<in> set (map fst (row_entries A i)). c < cols A"
    using iA assms(8) by (auto simp: I1_def)
  have sB: "sorted_wrt (<) (map fst (row_entries B i))" "\<forall>c \<in> set (map fst (row_entries B i)). c < cols B"
    using iB iB' by (auto simp: I1_def)
  have i': "i < rows res" using assms by simp
  have "\<exists>res'. row_from comb right A B i (row_ptr A ! Suc i) (row_ptr B ! Suc i) (row_ptr A ! i) (row_ptr B ! i) res = Inr res' \<and> invariants res' \<and>
           rows res' = rows res \<and> cols res' = cols res \<and>
           (\<forall>r < rows res. \<forall>c. cell res' r c =
              (if r = i then merged_or comb right (map_of (entries_from A (row_ptr A ! i) (row_ptr A ! Suc i)) c)
                               (map_of (entries_from B (row_ptr B ! i) (row_ptr B ! Suc i)) c) (cell res r c)
               else cell res r c))"
    apply (rule row_from_spec[OF assms(3) i'])
    using bA bB sA sB assms by (auto simp: entries_from_row simp del: map_fst_row_entries)
  then show ?thesis using assms(9) unfolding mr entries_from_row by auto
qed

lemma for_loop_merge_rows:
  assumes "invariants A" "invariants B" "rows B = rows A" "cols B = cols A"
  shows "invariants res \<Longrightarrow> rows res = rows A \<Longrightarrow> cols res = cols A \<Longrightarrow> n \<le> rows A \<Longrightarrow>
         \<forall>r. k \<le> r \<and> r < rows A \<longrightarrow> (\<forall>c. cell res r c = 0) \<Longrightarrow>
         \<exists>res'. for_loop (merge_row comb right A B) [k..<n] res = Inr res' \<and> invariants res' \<and>
           rows res' = rows A \<and> cols res' = cols A \<and>
           (\<forall>r < rows A. \<forall>c. cell res' r c =
              (if k \<le> r \<and> r < n then merged_or comb right (map_of (row_entries A r) c)
                               (map_of (row_entries B r) c) 0
               else cell res r c))"
proof (induction "n - k" arbitrary: k res)
  case 0
  then show ?case by simp
next
  case (Suc d)
  then have kn: "k < n" "k < rows A" by auto
  have z: "\<forall>c. cell res k c = 0" using Suc.prems(5) kn by simp
  from merge_row_spec[OF assms(1,2) Suc.prems(1) assms(3,4) Suc.prems(2,3) kn(2) z, of comb right]
  obtain res1 where
    r1: "merge_row comb right A B k res = Inr res1" "invariants res1"
        "rows res1 = rows res" "cols res1 = cols res"
        "\<forall>r < rows res. \<forall>c. cell res1 r c =
              (if r = k then merged_or comb right (map_of (row_entries A k) c)
                               (map_of (row_entries B k) c) 0
               else cell res r c)"
    by blast
  have "\<exists>res'. for_loop (merge_row comb right A B) [Suc k..<n] res1 = Inr res' \<and> invariants res' \<and>
           rows res' = rows A \<and> cols res' = cols A \<and>
           (\<forall>r < rows A. \<forall>c. cell res' r c =
              (if Suc k \<le> r \<and> r < n then merged_or comb right (map_of (row_entries A r) c)
                               (map_of (row_entries B r) c) 0
               else cell res1 r c))"
    using Suc.hyps(2) Suc.prems r1 by (intro Suc.hyps(1)) auto
  then obtain res' where
    r': "for_loop (merge_row comb right A B) [Suc k..<n] res1 = Inr res'" "invariants res'"
        "rows res' = rows A" "cols res' = cols A"
        "\<forall>r < rows A. \<forall>c. cell res' r c =
              (if Suc k \<le> r \<and> r < n then merged_or comb right (map_of (row_entries A r) c)
                               (map_of (row_entries B r) c) 0
               else cell res1 r c)"
    by blast
  have "for_loop (merge_row comb right A B) [k..<n] res = Inr res'"
    using kn r1(1) r'(1) by (simp add: upt_rec[of k n])
  moreover have "\<forall>r < rows A. \<forall>c. cell res' r c =
              (if k \<le> r \<and> r < n then merged_or comb right (map_of (row_entries A r) c)
                               (map_of (row_entries B r) c) 0
               else cell res r c)"
    using r'(5) r1(5) Suc.prems(2) kn by auto
  ultimately show ?case using r' by auto
qed

lemma rows_new [simp]: "rows (new_SparseMatrix R C) = R"
  by (simp add: new_SparseMatrix_def)

lemma cols_new [simp]: "cols (new_SparseMatrix R C) = C"
  by (simp add: new_SparseMatrix_def)

lemma cell_new [simp]: "cell (new_SparseMatrix R C) r c = 0"
  by (simp add: cell_def row_entries_def row_cols_def new_SparseMatrix_def slice_def)

lemma merged_add: "merged_or (\<lambda>a b. a + b) (\<lambda>b. b) (map_of (row_entries A r) c) (map_of (row_entries B r) c) 0 = cell A r c + cell B r c"
  by (simp add: merged_or_def cell_def split: option.splits)

lemma merged_subtract: "merged_or (\<lambda>a b. a - b) (\<lambda>b. - b) (map_of (row_entries A r) c) (map_of (row_entries B r) c) 0 = cell A r c - cell B r c"
  by (simp add: merged_or_def cell_def split: option.splits)

lemma add_spec:
  assumes "invariants A" "invariants B" "rows B = rows A" "cols B = cols A"
  shows "\<exists>S. add A B = Inr S \<and> invariants S \<and> rows S = rows A \<and> cols S = cols A \<and>
             (\<forall>r < rows A. \<forall>c. cell S r c = cell A r c + cell B r c)"
  using for_loop_merge_rows[OF assms invariants_new, of "rows A" "cols A" "rows A" 0 "\<lambda>a b. a + b" "\<lambda>b. b"] assms(3,4)
  by (simp add: add_def merged_add)

lemma subtract_spec:
  assumes "invariants A" "invariants B" "rows B = rows A" "cols B = cols A"
  shows "\<exists>D. subtract A B = Inr D \<and> invariants D \<and> rows D = rows A \<and> cols D = cols A \<and>
             (\<forall>r < rows A. \<forall>c. cell D r c = cell A r c - cell B r c)"
  using for_loop_merge_rows[OF assms invariants_new, of "rows A" "cols A" "rows A" 0 "\<lambda>a b. a - b" "\<lambda>b. - b"] assms(3,4)
  by (simp add: subtract_def merged_subtract)


subsection \<open>multiply\<close>

lemma lookup_sum:
  fixes g :: "nat \<Rightarrow> int"
  assumes "distinct (map fst ps)" "\<forall>k \<in> set (map fst ps). k < n"
  shows "(\<Sum>k<n. (case map_of ps k of None \<Rightarrow> 0 | Some v \<Rightarrow> v) * g k) =
         sum_list (map (\<lambda>(k, v). v * g k) ps)"
  using assms
proof (induction ps)
  case Nil
  then show ?case by simp
next
  case (Cons p ps)
  obtain k0 v0 where p: "p = (k0, v0)" by (cases p)
  have k0: "k0 < n" "map_of ps k0 = None" using Cons.prems p by (auto simp: map_of_eq_None_iff)
  have "(\<Sum>k<n. (case map_of (p # ps) k of None \<Rightarrow> 0 | Some v \<Rightarrow> v) * g k) =
        (\<Sum>k<n. (if k = k0 then v0 * g k0 else 0) + (case map_of ps k of None \<Rightarrow> 0 | Some v \<Rightarrow> v) * g k)"
    using k0 p by (intro sum.cong) auto
  also have "\<dots> = v0 * g k0 + (\<Sum>k<n. (case map_of ps k of None \<Rightarrow> 0 | Some v \<Rightarrow> v) * g k)"
    using k0(1) by (simp add: sum.distrib)
  finally show ?case using Cons p by simp
qed

lemma fold_collect:
  "fold (\<lambda>j acc. if P j then acc @ [f j] else acc) js acc = acc @ map f (filter P js)"
  by (induction js arbitrary: acc) auto

lemma nonZeroEntries_eq:
  "nonZeroEntries T n = map (\<lambda>j. (j, T ! j)) (filter (\<lambda>j. T ! j \<noteq> 0) [0..<n])"
  by (simp add: nonZeroEntries_def fold_collect)

lemma sorted_nonZeroEntries: "sorted_wrt (<) (map fst (nonZeroEntries T n))"
  by (simp add: nonZeroEntries_eq comp_def sorted_wrt_filter strict_sorted_iff)

lemma sort_nonZeroEntries: "sort_key fst (nonZeroEntries T n) = nonZeroEntries T n"
  using sorted_nonZeroEntries[of T n] by (intro sort_key_id_if_sorted) (simp add: strict_sorted_iff)

lemma map_of_graph: "map_of (map (\<lambda>k. (k, f k)) xs) k = (if k \<in> set xs then Some (f k) else None)"
  by (induction xs) auto

lemma map_of_nonZeroEntries:
  "map_of (nonZeroEntries T n) j = (if j < n \<and> T ! j \<noteq> 0 then Some (T ! j) else None)"
  by (simp add: nonZeroEntries_eq map_of_graph)

lemma fold_push:
  "fold (\<lambda>(col, value) m. m\<lparr>values := values m @ [value], col_indices := col_indices m @ [col]\<rparr>) es res =
   res\<lparr>values := values res @ map snd es, col_indices := col_indices res @ map fst es\<rparr>"
  by (induction es arbitrary: res) (auto simp: case_prod_beta)

lemma fold_reset_aux:
  "n \<le> length T \<Longrightarrow>
   length (fold (\<lambda>j t. t[j := 0::int]) [0..<n] T) = length T \<and>
   (\<forall>j < length T. fold (\<lambda>j t. t[j := 0]) [0..<n] T ! j = (if j < n then 0 else T ! j))"
  by (induction n) (auto simp: nth_list_update)

lemma fold_reset: "length T = n \<Longrightarrow> fold (\<lambda>j t. t[j := 0::int]) [0..<n] T = replicate n 0"
  using fold_reset_aux[of n T] by (auto simp: list_eq_iff_nth_eq)

lemma fold_cascade:
  "length (fold (\<lambda>k xs. xs[k := xs ! a]) [b..<n] rp) = length rp \<and>
   (a < b \<longrightarrow> n \<le> length rp \<longrightarrow>
     (\<forall>j < length rp. fold (\<lambda>k xs. xs[k := xs ! a]) [b..<n] rp ! j =
        (if b \<le> j \<and> j < n then rp ! a else rp ! j)))"
proof (induction n)
  case 0
  then show ?case by simp
next
  case (Suc n)
  show ?case
  proof (cases "b \<le> n")
    case True
    with Suc show ?thesis by (auto simp: nth_list_update)
  next
    case False
    then show ?thesis by auto
  qed
qed

lemma accumulate_row:
  assumes "e \<le> length (col_indices B)" "length (col_indices B) = length (values B)"
  shows "distinct (map fst (entries_from B s e)) \<Longrightarrow>
         \<forall>c \<in> set (map fst (entries_from B s e)). c < length T \<Longrightarrow>
         \<exists>T'. for_loop (accumulate B v) [s..<e] T = Inr T' \<and> length T' = length T \<and>
           (\<forall>j < length T. T' ! j =
              T ! j + v * (case map_of (entries_from B s e) j of None \<Rightarrow> 0 | Some w \<Rightarrow> w))"
proof (induction "e - s" arbitrary: s T)
  case 0
  then show ?case by simp
next
  case (Suc d)
  then have se: "s < e" by simp
  let ?c = "col_indices B ! s" and ?w = "values B ! s"
  have ef: "entries_from B s e = (?c, ?w) # entries_from B (Suc s) e"
    using se assms by (simp add: entries_from_Cons)
  let ?T1 = "T[?c := T ! ?c + v * ?w]"
  have c: "?c < length T" using Suc.prems(2) ef by simp
  have a: "accumulate B v s T = Inr ?T1"
    using se assms c by (simp add: accumulate_def Let_def)
  have "\<exists>T'. for_loop (accumulate B v) [Suc s..<e] ?T1 = Inr T' \<and> length T' = length ?T1 \<and>
           (\<forall>j < length ?T1. T' ! j =
              ?T1 ! j + v * (case map_of (entries_from B (Suc s) e) j of None \<Rightarrow> 0 | Some w \<Rightarrow> w))"
    using Suc.hyps(2) Suc.prems ef by (intro Suc.hyps(1)) auto
  then obtain T' where
    T': "for_loop (accumulate B v) [Suc s..<e] ?T1 = Inr T'" "length T' = length T"
        "\<forall>j < length T. T' ! j =
              ?T1 ! j + v * (case map_of (entries_from B (Suc s) e) j of None \<Rightarrow> 0 | Some w \<Rightarrow> w)"
    by auto
  have notin: "map_of (entries_from B (Suc s) e) ?c = None"
    using Suc.prems(1) ef by (simp add: map_of_eq_None_iff)
  have "for_loop (accumulate B v) [s..<e] T = Inr T'"
    using se a T'(1) by (simp add: upt_rec[of s e])
  moreover have "\<forall>j < length T. T' ! j =
              T ! j + v * (case map_of (entries_from B s e) j of None \<Rightarrow> 0 | Some w \<Rightarrow> w)"
    using T'(3) notin c unfolding ef by (auto simp: nth_list_update)
  ultimately show ?case using T'(2) by auto
qed

lemma spread_cell:
  assumes "invariants B" "k < rows B" "length T = cols B"
    and "p1 < length (values A)" "p1 < length (col_indices A)" "col_indices A ! p1 = k"
  shows "\<exists>T'. spread A B p1 T = Inr T' \<and> length T' = length T \<and>
           (\<forall>j < length T. T' ! j = T ! j + values A ! p1 * cell B k j)"
proof -
  have iB: "I1 B" "I3 B" using assms(1) by (simp_all add: invariants_def)
  note b = I3_bounds[OF iB(2) assms(2)]
  have srt: "sorted_wrt (<) (map fst (row_entries B k))" "\<forall>c \<in> set (map fst (row_entries B k)). c < cols B"
    using iB assms(2) by (auto simp: I1_def)
  have d: "distinct (map fst (entries_from B (row_ptr B ! k) (row_ptr B ! Suc k)))"
    using srt(1) unfolding entries_from_row by (simp add: strict_sorted_iff del: map_fst_row_entries)
  have bd: "\<forall>c \<in> set (map fst (entries_from B (row_ptr B ! k) (row_ptr B ! Suc k))). c < length T"
    using srt(2) assms(3) unfolding entries_from_row by simp
  have e: "row_ptr B ! Suc k \<le> length (col_indices B)" using b by simp
  from accumulate_row[OF e b(3) d bd, of "values A ! p1"] show ?thesis
    using assms b iB
    by (simp add: spread_def Let_def row_end_I3 entries_from_row cell_def)
qed

lemma spread_row:
  assumes "invariants B" "length (col_indices A) = length (values A)" "e \<le> length (col_indices A)"
  shows "\<forall>k \<in> set (map fst (entries_from A s e)). k < rows B \<Longrightarrow> length T = cols B \<Longrightarrow>
         \<exists>T'. for_loop (spread A B) [s..<e] T = Inr T' \<and> length T' = length T \<and>
           (\<forall>j < length T. T' ! j =
              T ! j + sum_list (map (\<lambda>(k, v). v * cell B k j) (entries_from A s e)))"
proof (induction "e - s" arbitrary: s T)
  case 0
  then show ?case by simp
next
  case (Suc d)
  then have se: "s < e" by simp
  let ?k = "col_indices A ! s" and ?v = "values A ! s"
  have ef: "entries_from A s e = (?k, ?v) # entries_from A (Suc s) e"
    using se assms by (simp add: entries_from_Cons)
  have k: "?k < rows B" using Suc.prems(1) ef by simp
  have s: "s < length (values A)" "s < length (col_indices A)" using se assms by simp_all
  from spread_cell[OF assms(1) k Suc.prems(2) s refl] obtain T1 where
    T1: "spread A B s T = Inr T1" "length T1 = length T"
        "\<forall>j < length T. T1 ! j = T ! j + ?v * cell B ?k j"
    by blast
  have "\<exists>T'. for_loop (spread A B) [Suc s..<e] T1 = Inr T' \<and> length T' = length T1 \<and>
           (\<forall>j < length T1. T' ! j =
              T1 ! j + sum_list (map (\<lambda>(k, v). v * cell B k j) (entries_from A (Suc s) e)))"
    using Suc.hyps(2) Suc.prems ef T1(2) by (intro Suc.hyps(1)) auto
  then obtain T' where
    T': "for_loop (spread A B) [Suc s..<e] T1 = Inr T'" "length T' = length T"
        "\<forall>j < length T. T' ! j =
              T1 ! j + sum_list (map (\<lambda>(k, v). v * cell B k j) (entries_from A (Suc s) e))"
    using T1(2) by auto
  have "for_loop (spread A B) [s..<e] T = Inr T'"
    using se T1(1) T'(1) by (simp add: upt_rec[of s e])
  moreover have "\<forall>j < length T. T' ! j =
              T ! j + sum_list (map (\<lambda>(k, v). v * cell B k j) (entries_from A s e))"
    using T'(3) T1(3) unfolding ef by simp
  ultimately show ?case using T'(2) by auto
qed

lemma dot_row:
  assumes "invariants A" "i < rows A"
  shows "dot A B i j = sum_list (map (\<lambda>(k, v). v * cell B k j) (row_entries A i))"
proof -
  have iA: "I1 A" "I3 A" using assms(1) by (simp_all add: invariants_def)
  have srt: "sorted_wrt (<) (map fst (row_entries A i))" "\<forall>c \<in> set (map fst (row_entries A i)). c < cols A"
    using iA assms(2) by (auto simp: I1_def)
  then have "distinct (map fst (row_entries A i))" by (simp add: strict_sorted_iff del: map_fst_row_entries)
  from lookup_sum[OF this srt(2), of "\<lambda>k. cell B k j"] show ?thesis
    by (simp add: dot_def cell_def)
qed

lemma scratch_row:
  assumes "invariants A" "invariants B" "cols A = rows B" "i < rows A" "length T = cols B"
  shows "\<exists>T1. for_loop (spread A B) [row_ptr A ! i..<row_end A i]
                 (fold (\<lambda>j t. t[j := 0]) [0..<cols B] T) = Inr T1 \<and>
              length T1 = cols B \<and> (\<forall>j < cols B. T1 ! j = dot A B i j)"
proof -
  have iA: "I1 A" "I3 A" using assms(1) by (simp_all add: invariants_def)
  note b = I3_bounds[OF iA(2) assms(4)]
  have bd: "\<forall>k \<in> set (map fst (entries_from A (row_ptr A ! i) (row_ptr A ! Suc i))). k < rows B"
    using iA assms(3,4) unfolding entries_from_row by (auto simp: I1_def)
  have e: "row_ptr A ! Suc i \<le> length (col_indices A)" using b by simp
  from spread_row[OF assms(2) b(3) e bd, of "replicate (cols B) 0"]
  show ?thesis
    using assms iA by (simp add: fold_reset row_end_I3 entries_from_row dot_row)
qed

lemma slice_append_left: "b \<le> length xs \<Longrightarrow> slice (xs @ ys) a b = slice xs a b"
  by (simp add: slice_def)

lemma slice_append_right: "slice (xs @ ys) (length xs) (length xs + length ys) = ys"
  by (simp add: slice_def)

lemma row_ptr_append:
  fixes n :: nat
  assumes "i + 1 < length rp"
  defines "rp1 \<equiv> rp[i + 1 := rp ! i + n]"
  defines "rp2 \<equiv> fold (\<lambda>k xs. xs[k := xs ! (i + 1)]) [i + 2..<length rp1] rp1"
  shows "length rp2 = length rp"
    and "\<forall>j < length rp. rp2 ! j = (if j \<le> i then rp ! j else rp ! i + n)"
proof -
  have l1: "length rp1 = length rp" by (simp add: rp1_def)
  from fold_cascade[of "i + 1" "i + 2" "length rp1" rp1]
  have f: "length rp2 = length rp1"
    "\<forall>j < length rp1. rp2 ! j = (if i + 2 \<le> j then rp1 ! (i + 1) else rp1 ! j)"
    by (auto simp: rp2_def)
  show "length rp2 = length rp" using f l1 by simp
  show "\<forall>j < length rp. rp2 ! j = (if j \<le> i then rp ! j else rp ! i + n)"
    using f(2) l1 assms(1) by (auto simp: rp1_def nth_list_update)
qed

lemma multiply_row_step:
  assumes "invariants A" "invariants B" "cols A = rows B" "i < rows A"
    and "rows_done A B i (T, res)"
  shows "\<exists>st'. multiply_row A B i (T, res) = Inr st' \<and> rows_done A B (i + 1) st'"
proof -
  have iA: "I1 A" "I3 A" using assms(1) by (simp_all add: invariants_def)
  have st: "length T = cols B" "rows res = rows A" "cols res = cols B"
      "length (row_ptr res) = rows A + 1" "length (col_indices res) = length (values res)"
      "sorted (row_ptr res)" "0 \<notin> set (values res)"
      "\<forall>r \<in> set [i..<rows A + 1]. row_ptr res ! r = length (values res)"
      "\<forall>r \<in> set [0..<i]. sorted_wrt (<) (row_cols res r) \<and>
          (\<forall>c \<in> set (row_cols res r). c < cols B) \<and>
          (\<forall>c \<in> set [0..<cols B]. cell res r c = dot A B r c)"
    using assms(5) by (simp_all add: rows_done_def)
  from scratch_row[OF assms(1,2,3,4) st(1)] obtain T1 where
    T1: "for_loop (spread A B) [row_ptr A ! i..<row_end A i]
                 (fold (\<lambda>j t. t[j := 0]) [0..<cols B] T) = Inr T1"
        "length T1 = cols B" "\<forall>j < cols B. T1 ! j = dot A B i j"
    by blast
  define es where "es = nonZeroEntries T1 (cols B)"
  define vs' where "vs' = values res @ map snd es"
  define ci' where "ci' = col_indices res @ map fst es"
  define rp1 where "rp1 = (row_ptr res)[i + 1 := row_ptr res ! i + length es]"
  define rp2 where "rp2 = fold (\<lambda>k xs. xs[k := xs ! (i + 1)]) [i + 2..<length rp1] rp1"
  define res' where "res' = res\<lparr>values := vs', col_indices := ci', row_ptr := rp2\<rparr>"
  have il: "i + 1 < length (row_ptr res)" "i < length (row_ptr A)" using st(4) assms(4) iA by (auto simp: I3_def)
  have sort_es: "sort_key fst es = es" by (simp add: es_def sort_nonZeroEntries)
  have run: "multiply_row A B i (T, res) = Inr (T1, res')"
    using T1(1) il st(1)
    by (simp add: multiply_row_def Let_def fold_push es_def[symmetric] sort_es res'_def
          vs'_def ci'_def rp2_def rp1_def)
  note rp = row_ptr_append[OF il(1), of "length es", folded rp1_def, folded rp2_def]
  have rpi: "row_ptr res ! i = length (values res)" using st(8) assms(4) by simp
  have mono: "\<And>a b. a \<le> b \<Longrightarrow> b \<le> rows A \<Longrightarrow> row_ptr res ! a \<le> row_ptr res ! b"
    using st(4,6) by (simp add: sorted_nth_mono)
  have srt2: "sorted rp2"
    unfolding sorted_iff_nth_mono
  proof (intro allI impI)
    fix a b assume ab: "a \<le> b" "b < length rp2"
    then have "a < length (row_ptr res)" "b < length (row_ptr res)" "b \<le> rows A" using rp(1) st(4) by auto
    then show "rp2 ! a \<le> rp2 ! b"
      using rp(2) ab mono[of a b] mono[of a i] assms(4) by (auto simp: trans_le_add1)
  qed
  have es_keys: "sorted_wrt (<) (map fst es)" "\<forall>c \<in> set (map fst es). c < cols B"
    and es_vals: "0 \<notin> set (map snd es)"
    unfolding es_def using sorted_nonZeroEntries[of T1 "cols B"]
    by (auto simp: nonZeroEntries_eq)
  have es_cell: "\<And>c. c < cols B \<Longrightarrow> (case map_of es c of None \<Rightarrow> 0 | Some v \<Rightarrow> v) = dot A B i c"
    using T1(3) by (simp add: es_def map_of_nonZeroEntries)
  have len_vs': "length vs' = length (values res) + length es" by (simp add: vs'_def)
  have row_i: "row_entries res' i = es"
  proof -
    have "rp2 ! i = length (values res)" "rp2 ! (i + 1) = length (values res) + length es"
      using rp(2) il rpi by auto
    then have "row_cols res' i = map fst es" "row_vals res' i = map snd es"
      using slice_append_right[of "col_indices res" "map fst es"]
            slice_append_right[of "values res" "map snd es"] st(5)
      by (simp_all add: row_cols_def row_vals_def res'_def ci'_def vs'_def)
    then show ?thesis by (simp add: row_entries_def zip_map_fst_snd)
  qed
  have row_old: "\<And>r. r < i \<Longrightarrow> row_cols res' r = row_cols res r \<and> row_vals res' r = row_vals res r"
  proof -
    fix r assume r: "r < i"
    then have "rp2 ! r = row_ptr res ! r" "rp2 ! (r + 1) = row_ptr res ! (r + 1)"
      using rp(2) il by auto
    moreover have "row_ptr res ! (r + 1) \<le> length (values res)"
      using mono[of "r + 1" i] r rpi assms(4) by simp
    ultimately show "row_cols res' r = row_cols res r \<and> row_vals res' r = row_vals res r"
      using st(5) by (simp add: row_cols_def row_vals_def res'_def ci'_def vs'_def slice_append_left)
  qed
  have "rows_done A B (i + 1) (T1, res')"
    unfolding rows_done_def
  proof (simp only: prod.case Let_def, intro conjI ballI)
    show "length T1 = cols B" by (rule T1(2))
    show "rows res' = rows A" "cols res' = cols B" using st by (simp_all add: res'_def)
    show "length (row_ptr res') = rows A + 1" using rp(1) st(4) by (simp add: res'_def)
    show "length (col_indices res') = length (values res')" using st(5) by (simp add: res'_def ci'_def vs'_def)
    show "sorted (row_ptr res')" using srt2 by (simp add: res'_def)
    show "0 \<notin> set (values res')" using st(7) es_vals by (simp add: res'_def vs'_def)
  next
    fix r assume "r \<in> set [i + 1..<rows A + 1]"
    then have "i < r" "r < length (row_ptr res)" using st(4) by auto
    then have "rp2 ! r = row_ptr res ! i + length es" using rp(2) by auto
    then show "row_ptr res' ! r = length (values res')"
      using rpi by (simp add: res'_def len_vs')
  next
    fix r assume "r \<in> set [0..<i + 1]"
    then consider "r < i" | "r = i" by fastforce
    then have "sorted_wrt (<) (row_cols res' r) \<and> (\<forall>c \<in> set (row_cols res' r). c < cols B) \<and>
          (\<forall>c \<in> set [0..<cols B]. cell res' r c = dot A B r c)"
    proof cases
      case 1
      then show ?thesis using row_old[of r] st(9) by (simp add: cell_def row_entries_def)
    next
      case 2
      have lens: "length (row_cols res' i) = length (row_vals res' i)"
        using rp(2) il rpi st(5) by (simp add: row_cols_def row_vals_def res'_def ci'_def vs'_def)
      have "row_cols res' i = map fst (row_entries res' i)"
        using lens by (simp add: row_entries_def)
      then have rc: "row_cols res' i = map fst es" using row_i by simp
      show ?thesis unfolding 2 rc using es_keys es_cell row_i by (simp add: cell_def)
    qed
    then show "sorted_wrt (<) (row_cols res' r)" "\<And>c. c \<in> set (row_cols res' r) \<Longrightarrow> c < cols B"
      "\<And>c. c \<in> set [0..<cols B] \<Longrightarrow> cell res' r c = dot A B r c"
      by auto
  qed
  then show ?thesis using run by simp
qed

lemma for_loop_multiply:
  assumes "invariants A" "invariants B" "cols A = rows B"
  shows "rows_done A B k st \<Longrightarrow> n \<le> rows A \<Longrightarrow>
         \<exists>st'. for_loop (multiply_row A B) [k..<n] st = Inr st' \<and> rows_done A B (max k n) st'"
proof (induction "n - k" arbitrary: k st)
  case 0
  then show ?case by (simp add: max_def)
next
  case (Suc d)
  then have kn: "k < n" "k < rows A" by auto
  obtain T res where st: "st = (T, res)" by (cases st)
  from multiply_row_step[OF assms kn(2) Suc.prems(1)[unfolded st]] obtain st1 where
    s1: "multiply_row A B k st = Inr st1" "rows_done A B (k + 1) st1"
    unfolding st by blast
  have "\<exists>st'. for_loop (multiply_row A B) [k + 1..<n] st1 = Inr st' \<and> rows_done A B (max (k + 1) n) st'"
    using Suc.hyps(2) Suc.prems(2) s1(2) by (intro Suc.hyps(1)) auto
  then show ?case using kn s1(1) by (simp add: upt_rec[of k n] max_def)
qed

lemma rows_done_start: "rows_done A B 0 (replicate (cols B) 0, new_SparseMatrix (rows A) (cols B))"
  by (auto simp: rows_done_def new_SparseMatrix_def nth_Cons')

lemma rows_done_end:
  assumes "rows_done A B (rows A) (T, P)"
  shows "invariants P \<and> rows P = rows A \<and> cols P = cols B \<and>
         (\<forall>i < rows A. \<forall>j < cols B. cell P i j = dot A B i j)"
  using assms by (auto simp: rows_done_def invariants_def I1_def I2_def I3_def)

lemma multiply_spec:
  assumes "invariants A" "invariants B" "cols A = rows B"
  shows "\<exists>P. multiply A B = Inr P \<and> invariants P \<and> rows P = rows A \<and> cols P = cols B \<and>
             (\<forall>i < rows A. \<forall>j < cols B. cell P i j = dot A B i j)"
proof -
  from for_loop_multiply[OF assms rows_done_start, of "rows A"] obtain T P where
    "for_loop (multiply_row A B) [0..<rows A]
        (replicate (cols B) 0, new_SparseMatrix (rows A) (cols B)) = Inr (T, P)"
    "rows_done A B (rows A) (T, P)"
    by auto
  then show ?thesis using rows_done_end[of A B T P] assms(3) by (simp add: multiply_def)
qed

subsection \<open>loadFromFile\<close>

lemma last_value_Nil [simp]: "last_value [] r c = None"
  by (simp add: last_value_def)



lemma in_bounds_sort [simp]: "in_bounds R C (sort_key f es) = in_bounds R C es"
  by (simp add: in_bounds_def)







lemma is_digit_props:
  assumes "is_digit c"
  shows "\<not> is_space c" "c \<noteq> CHR ''-''" "c \<noteq> CHR ''+''" "c \<noteq> CHR ''x''" "c \<noteq> CHR ''X''"
    "is_radix_digit 10 c" "c \<noteq> CHR '',''" "c \<noteq> CHR 0x0A" "c \<noteq> CHR ''(''" "c \<noteq> CHR '')''"
  using assms by (auto simp: is_digit_def is_space_def is_radix_digit_def digit_value_def)

lemma parseInt_digits:
  assumes "s \<noteq> []" "\<forall>c \<in> set s. is_digit c"
  shows "parseInt s = Some (int (digits_value 10 s))"
proof -
  have c: "is_digit (hd s)" using assms by simp
  have d1: "dropWhile is_space s = s"
    using assms(1) is_digit_props(1)[OF c] by (cases s) auto
  have sign: "hd s \<noteq> CHR ''-''" "hd s \<noteq> CHR ''+''"
    using is_digit_props(2,3)[OF c] by simp_all
  have "\<forall>x \<in> set (take 2 s). is_digit x" using assms(2) by (meson in_set_takeD)
  then have nohex: "\<not> (take 2 s = ''0x'' \<or> take 2 s = ''0X'')"
    using is_digit_props(4,5) by (metis list.set_intros(1,2))
  have tw: "takeWhile (is_radix_digit 10) s = s"
    using assms(2) is_digit_props(6) by (simp add: takeWhile_eq_all_conv)
  show ?thesis
    unfolding parseInt_def d1 Let_def
    by (simp only: sign nohex tw assms(1) if_False if_True simp_thms) simp
qed

lemma match_header_digits:
  "match_header key s = Some d \<Longrightarrow> d \<noteq> [] \<and> (\<forall>c \<in> set d. is_digit c)"
proof (induction s)
  case Nil
  then show ?case by simp
next
  case (Cons c cs)
  then show ?case
    by (auto split: if_splits dest: set_takeWhileD)
qed



lemma loadFromFile_no_header:
  assumes "header content = None"
  shows "\<exists>p. loadFromFile content = Inl (FormatError None p)"
proof -
  have pi: "parseInt d = None \<Longrightarrow> match_header key s = Some d \<Longrightarrow> False" for key s d
    using match_header_digits[of key s d] parseInt_digits[of d] by simp
  show ?thesis
    using assms
    by (auto simp: header_def loadFromFile_def Let_def text_lines_def split: if_splits option.splits
             dest: pi)
qed






subsection \<open>The arithmetic operations\<close>

lemma setElement_error: "setElement m r c v = Inl e \<Longrightarrow> e = IndexError \<or> e = Unrepresented"
  unfolding setElement_def Let_def
  by (simp split: if_splits)

lemma setElement_no_mismatch: "setElement m r c v \<noteq> Inl (DimensionMismatch s)"
  using setElement_error[of m r c v "DimensionMismatch s"] by auto

lemma for_loop_error:
  assumes "\<And>i st. body i st \<noteq> Inl e"
  shows "for_loop body is st \<noteq> Inl e"
proof (induction "is" arbitrary: st)
  case Nil
  then show ?case by simp
next
  case (Cons i "is")
  then show ?case using assms[of i st] by (cases "body i st") auto
qed

lemma copy_rest_no_mismatch: "copy_rest f M i e p res \<noteq> Inl (DimensionMismatch s)"
proof (induction f M i e p res rule: copy_rest.induct)
  case (1 f M i e p res)
  show ?case
  proof (cases "setElement res (int i) (int (col_indices M ! p)) (f (values M ! p))")
    case (Inl x)
    then show ?thesis using setElement_no_mismatch[of res "int i" "int (col_indices M ! p)" "f (values M ! p)" s]
      by (subst copy_rest.simps) auto
  next
    case (Inr res')
    then show ?thesis using 1[of res'] by (subst copy_rest.simps) auto
  qed
qed

lemma merge_both_no_mismatch:
  "merge_both comb right A B i e1 e2 p1 p2 res \<noteq> Inl (DimensionMismatch s)"
proof (induction "(e1 - p1) + (e2 - p2)" arbitrary: p1 p2 res rule: less_induct)
  case less
  show ?case
  proof (cases "p1 < e1 \<and> p2 < e2")
    case False
    then show ?thesis by (subst merge_both.simps) auto
  next
    case True
    have IH1: "merge_both comb right A B i e1 e2 (p1 + 1) p2 r \<noteq> Inl (DimensionMismatch s)" for r
      using True by (intro less) linarith
    have IH2: "merge_both comb right A B i e1 e2 p1 (p2 + 1) r \<noteq> Inl (DimensionMismatch s)" for r
      using True by (intro less) linarith
    have IH3: "merge_both comb right A B i e1 e2 (p1 + 1) (p2 + 1) r \<noteq> Inl (DimensionMismatch s)" for r
      using True by (intro less) linarith
    have S: "setElement r a b c = Inl x \<Longrightarrow> x \<noteq> DimensionMismatch s" for r a b c x
      using setElement_no_mismatch[of r a b c s] by auto
    show ?thesis
      apply (subst merge_both.simps)
      apply (simp only: Let_def)
      apply (simp split: sum.split add: IH1 IH2 IH3 S del: One_nat_def)
      done
  qed
qed

lemma merge_row_no_mismatch: "merge_row comb right A B i res \<noteq> Inl (DimensionMismatch s)"
proof -
  have mb: "merge_both comb right A B i e1 e2 p1 p2 r = Inl x \<Longrightarrow> x \<noteq> DimensionMismatch s"
    for e1 e2 p1 p2 r x using merge_both_no_mismatch[of comb right A B i e1 e2 p1 p2 r s] by auto
  have cr: "copy_rest f M i e p r = Inl x \<Longrightarrow> x \<noteq> DimensionMismatch s"
    for f M e p r x using copy_rest_no_mismatch[of f M i e p r s] by auto
  show ?thesis
    unfolding merge_row_def Let_def
    by (simp split: sum.split prod.split add: mb cr copy_rest_no_mismatch)
qed

lemma accumulate_no_mismatch: "accumulate B v p T \<noteq> Inl (DimensionMismatch s)"
  by (simp add: accumulate_def Let_def)

lemma spread_no_mismatch: "spread A B p T \<noteq> Inl (DimensionMismatch s)"
  unfolding spread_def Let_def
  by (simp add: for_loop_error[OF accumulate_no_mismatch])

lemma multiply_row_no_mismatch: "multiply_row A B i st \<noteq> Inl (DimensionMismatch s)"
proof -
  have fl: "for_loop (spread A B) js T = Inl x \<Longrightarrow> x \<noteq> DimensionMismatch s" for js T x
    using for_loop_error[of "spread A B" "DimensionMismatch s" js T, OF spread_no_mismatch] by auto
  show ?thesis
    unfolding multiply_row_def Let_def
    by (simp split: sum.split prod.split add: fl)
qed

lemma add_mismatch_iff:
  "(\<exists>s. add A B = Inl (DimensionMismatch s)) \<longleftrightarrow> rows A \<noteq> rows B \<or> cols A \<noteq> cols B"
  by (simp add: add_def for_loop_error[OF merge_row_no_mismatch])

lemma subtract_mismatch_iff:
  "(\<exists>s. subtract A B = Inl (DimensionMismatch s)) \<longleftrightarrow> rows A \<noteq> rows B \<or> cols A \<noteq> cols B"
  by (simp add: subtract_def for_loop_error[OF merge_row_no_mismatch])

lemma multiply_mismatch_iff:
  "(\<exists>s. multiply A B = Inl (DimensionMismatch s)) \<longleftrightarrow> cols A \<noteq> rows B"
proof (cases "cols A = rows B")
  case True
  have "for_loop (multiply_row A B) [0..<rows A] (replicate (cols B) 0, new_SparseMatrix (rows A) (cols B))
        \<noteq> Inl (DimensionMismatch s)" for s
    by (rule for_loop_error[OF multiply_row_no_mismatch])
  then show ?thesis using True by (auto simp: multiply_def split: sum.splits)
next
  case False
  then show ?thesis by (simp add: multiply_def)
qed






text \<open>
  C9.  \<open>add\<close> and \<open>subtract\<close> throw their dimension error exactly when the operands
  differ in the number of rows or of columns, \<open>multiply\<close> exactly when the columns of
  the left operand differ from the rows of the right one; on matrices of the data model
  with matching shapes the three operations return a matrix.
\<close>

theorem C9_dimension_mismatch:
  "((\<exists>s. add A B = Inl (DimensionMismatch s)) \<longleftrightarrow> rows A \<noteq> rows B \<or> cols A \<noteq> cols B) \<and>
   ((\<exists>s. subtract A B = Inl (DimensionMismatch s)) \<longleftrightarrow> rows A \<noteq> rows B \<or> cols A \<noteq> cols B) \<and>
   ((\<exists>s. multiply A B = Inl (DimensionMismatch s)) \<longleftrightarrow> cols A \<noteq> rows B) \<and>
   (invariants A \<and> invariants B \<longrightarrow>
      (rows A = rows B \<and> cols A = cols B \<longrightarrow> (\<exists>S. add A B = Inr S) \<and> (\<exists>D. subtract A B = Inr D)) \<and>
      (cols A = rows B \<longrightarrow> (\<exists>P. multiply A B = Inr P)))"
proof (intro conjI impI)
  show "(\<exists>s. add A B = Inl (DimensionMismatch s)) \<longleftrightarrow> rows A \<noteq> rows B \<or> cols A \<noteq> cols B"
    by (rule add_mismatch_iff)
  show "(\<exists>s. subtract A B = Inl (DimensionMismatch s)) \<longleftrightarrow> rows A \<noteq> rows B \<or> cols A \<noteq> cols B"
    by (rule subtract_mismatch_iff)
  show "(\<exists>s. multiply A B = Inl (DimensionMismatch s)) \<longleftrightarrow> cols A \<noteq> rows B"
    by (rule multiply_mismatch_iff)
next
  assume "invariants A \<and> invariants B" "rows A = rows B \<and> cols A = cols B"
  then show "\<exists>S. add A B = Inr S" using add_spec[of A B] by auto
next
  assume "invariants A \<and> invariants B" "rows A = rows B \<and> cols A = cols B"
  then show "\<exists>D. subtract A B = Inr D" using subtract_spec[of A B] by auto
next
  assume "invariants A \<and> invariants B" "cols A = rows B"
  then show "\<exists>P. multiply A B = Inr P" using multiply_spec[of A B] by auto
qed

theorem C9_witness:
  "(\<exists>s. add m0 m1 = Inl (DimensionMismatch s)) \<and> (\<exists>s. subtract m0 m1 = Inl (DimensionMismatch s)) \<and>
   (\<exists>s. multiply m0 m2 = Inl (DimensionMismatch s)) \<and>
   (\<exists>S. add m0 m2 = Inr S) \<and> (\<exists>D. subtract m0 m2 = Inr D) \<and> (\<exists>P. multiply m0 m1 = Inr P)"
proof -
  have i: "invariants m0" "invariants m1" "invariants m2" by code_simp+
  have d: "rows m0 = 2" "cols m0 = 3" "rows m1 = 3" "cols m1 = 2" "rows m2 = 2" "cols m2 = 3"
    by (simp_all add: m0_def m1_def m2_def)
  from C9_dimension_mismatch[of m0 m1] C9_dimension_mismatch[of m0 m2] i d show ?thesis
    by simp
qed

subsection \<open>Loading a text\<close>












text \<open>
  C8 fails on the code: \<open>parseInt\<close> reads the digits in front of a field and ignores
  the rest, so the fields \<open>3.5\<close> and \<open>12abc\<close> pass the \<open>isNaN\<close> check as 3 and 12, and the
  texts load without an error.
\<close>

theorem C8_non_integer_accepted:
  "entry_fields 3 ''(0, 0, 3.5)'' = Inr (0, 0, 3) \<and>
   loadFromFile decimal_text =
     Inr \<lparr>rows = 2, cols = 2, values = [3], col_indices = [0], row_ptr = [0, 1, 1]\<rparr> \<and>
   entry_fields 3 ''(0, 0, 12abc)'' = Inr (0, 0, 12) \<and>
   loadFromFile letters_text =
     Inr \<lparr>rows = 2, cols = 2, values = [12], col_indices = [0], row_ptr = [0, 1, 1]\<rparr>"
  by code_simp

subsection \<open>The round trip through a text\<close>








lemma split_on_nonempty: "split_on sep s \<noteq> []"
  by (induction s) (auto split: list.splits)




lemma trim_Nil [simp]: "trim [] = []"
  by (simp add: trim_def)





































end
